theory Spec2Isabelle
  imports Main "HOL-Library.Multiset" "HOL-Library.List_Lexorder" "HOL-Library.Char_ord"
begin

section \<open>Data frames (the part of pandas the tools use)\<close>

text \<open>
  A \<open>DataFrame\<close> of integers: the row labels (\<open>df.index\<close>), the column labels
  (\<open>df.columns\<close>) and the cells, row by row. A \<open>Series\<close> is the list of its
  (label, value) pairs, in order. Labels are Python strings.
\<close>

record dataframe =
  index :: "string list"
  columns :: "string list"
  vals :: "int list list"

type_synonym series = "(string \<times> int) list"

text \<open>A frame is rectangular: one row of cells per row label, one cell per column label.\<close>

definition rect :: "dataframe \<Rightarrow> bool" where
  "rect df \<longleftrightarrow> length (vals df) = length (index df) \<and>
     list_all (\<lambda>row. length row = length (columns df)) (vals df)"

text \<open>
  The adjacency matrices of the claims: rectangular, the labels of each axis pairwise distinct,
  the same label set on both axes, every cell 0 or 1.
\<close>

definition square01 :: "dataframe \<Rightarrow> bool" where
  "square01 df \<longleftrightarrow> rect df \<and> distinct (index df) \<and> distinct (columns df) \<and>
     set (index df) = set (columns df) \<and>
     list_all (list_all (\<lambda>x. x = 0 \<or> x = 1)) (vals df)"

text \<open>\<open>pd.DataFrame(0, index=rows, columns=cols)\<close>\<close>

definition DataFrame0 :: "string list \<Rightarrow> string list \<Rightarrow> dataframe" where
  "DataFrame0 rows cols =
     \<lparr>index = rows, columns = cols, vals = replicate (length rows) (replicate (length cols) 0)\<rparr>"

text \<open>\<open>df.sum(axis=1)\<close>: the sum of every row, labelled by the row labels.\<close>

definition sum_axis1 :: "dataframe \<Rightarrow> series" where
  "sum_axis1 df = zip (index df) (map sum_list (vals df))"

text \<open>\<open>df.sum(axis=0)\<close>: the sum of every column, labelled by the column labels.\<close>

definition sum_axis0 :: "dataframe \<Rightarrow> series" where
  "sum_axis0 df =
     map (\<lambda>j. (columns df ! j, sum_list (map (\<lambda>row. row ! j) (vals df))))
       [0..<length (columns df)]"

text \<open>
  \<open>df.loc[labels]\<close>: for every requested label in turn, the rows that carry it (all of them
  when a label occurs more than once in the index).
\<close>

definition loc_rows :: "string list \<Rightarrow> dataframe \<Rightarrow> dataframe" where
  "loc_rows labels df =
     (let sel = concat (map (\<lambda>l. filter (\<lambda>p. fst p = l) (zip (index df) (vals df))) labels)
      in df\<lparr>index := map fst sel, vals := map snd sel\<rparr>)"

text \<open>\<open>df[labels]\<close>: the same selection on the column axis, applied to every row.\<close>

definition pick :: "string list \<Rightarrow> string list \<Rightarrow> 'a list \<Rightarrow> 'a list" where
  "pick labels cols row =
     concat (map (\<lambda>l. map snd (filter (\<lambda>p. fst p = l) (zip cols row))) labels)"

definition select_cols :: "string list \<Rightarrow> dataframe \<Rightarrow> dataframe" where
  "select_cols labels df =
     df\<lparr>columns := pick labels (columns df) (columns df),
        vals := map (pick labels (columns df)) (vals df)\<rparr>"

text \<open>
  \<open>df.at[r, c] = v\<close> for labels that both exist: every cell in a row labelled \<open>r\<close> and a
  column labelled \<open>c\<close> becomes \<open>v\<close>. (With a label that does not exist pandas would enlarge
  the frame; the matrix generator only writes at labels of the universe.)
\<close>

definition at_set :: "string \<Rightarrow> string \<Rightarrow> int \<Rightarrow> dataframe \<Rightarrow> dataframe" where
  "at_set r c v df =
     df\<lparr>vals := map (\<lambda>(l, row). if l = r
                        then map (\<lambda>(k, x). if k = c then v else x) (zip (columns df) row)
                        else row)
                 (zip (index df) (vals df))\<rparr>"

text \<open>Reading the cell at row label \<open>r\<close> and column label \<open>c\<close> (\<open>None\<close>: no such labels).\<close>

definition at_get :: "dataframe \<Rightarrow> string \<Rightarrow> string \<Rightarrow> int option" where
  "at_get df r c =
     (case map_of (zip (index df) (vals df)) r of
        None \<Rightarrow> None
      | Some row \<Rightarrow> map_of (zip (columns df) row) c)"

section \<open>sort\_matrix.py\<close>

text \<open>
  \<open>Series.sort_values(ascending=False)\<close> is library code. The tool calls it with the default
  \<open>kind\<close> (\<open>'quicksort'\<close>), for which the library promises only that the result is the
  series reordered with its values non-increasing; how entries of equal value are ordered
  depends on the pandas and numpy release and on the processor. The sort is therefore a
  parameter of the model, and \<open>sorts_desc\<close> is what the library promises of it.
\<close>

type_synonym sorter = "series \<Rightarrow> series"

definition sorts_desc :: "sorter \<Rightarrow> bool" where
  "sorts_desc srt \<longleftrightarrow>
     (\<forall>s. mset (srt s) = mset s \<and> sorted_wrt (\<lambda>p q. snd q \<le> snd p) (srt s))"

text \<open>A stable sort keeps the entries of equal value in the order they had.\<close>

definition keeps_ties :: "sorter \<Rightarrow> bool" where
  "keeps_ties srt \<longleftrightarrow>
     (\<forall>s v. filter (\<lambda>p. snd p = v) (srt s) = filter (\<lambda>p. snd p = v) s)"

text \<open>
  Two sorts that meet \<open>sorts_desc\<close>. \<open>stable_desc\<close> is the stable one (what
  \<open>kind='stable'\<close> gives). \<open>reversed_asc\<close> sorts ascending and reverses the result, the way
  \<open>sort_values(ascending=False)\<close> was computed by older pandas releases
  (\<open>argsort(...)[::-1]\<close>): entries of equal value come out in reverse order.
\<close>

definition stable_desc :: sorter where
  "stable_desc s = sort_key (\<lambda>p. - snd p) s"

definition reversed_asc :: sorter where
  "reversed_asc s = rev (sort_key snd s)"

text \<open>\<open>reorder_by_sum\<close>, for an argument that already is a frame (not a CSV path).\<close>

definition reorder_by_sum :: "sorter \<Rightarrow> dataframe \<Rightarrow> dataframe" where
  "reorder_by_sum sort_values_desc df =
     (let row_sums = sum_axis1 df;
          new_row_order = map fst (sort_values_desc row_sums);
          df1 = loc_rows new_row_order df;
          col_sums = sum_axis0 df1;
          new_col_order = map fst (sort_values_desc col_sums);
          df2 = select_cols new_col_order df1
      in df2)"

text \<open>
  The variant the specification allows as an optimisation (section 4.4): both sums are taken
  from the original, unpermuted matrix, and the two permutations are applied independently.
\<close>

definition reorder_independent :: "sorter \<Rightarrow> dataframe \<Rightarrow> dataframe" where
  "reorder_independent sort_values_desc df =
     (let new_row_order = map fst (sort_values_desc (sum_axis1 df));
          new_col_order = map fst (sort_values_desc (sum_axis0 df))
      in select_cols new_col_order (loc_rows new_row_order df))"

section \<open>Text: characters, case, the regular expressions\<close>

text \<open>
  Python strings are modelled as \<open>string\<close>, for text made of ASCII characters. On these,
  \<open>\w\<close> is a letter, a digit or the underscore; \<open>\s\<close> is one of the characters that
  \<open>str.isspace\<close> accepts (tab, line feed, vertical tab, form feed, carriage return, the four
  separators 0x1C to 0x1F, space); \<open>str.lower\<close> maps \<open>A-Z\<close> to \<open>a-z\<close>; and under
  \<open>re.IGNORECASE\<close> a pattern letter matches itself in either case.
\<close>

definition is_word :: "char \<Rightarrow> bool" where
  "is_word c \<longleftrightarrow>
     c \<in> set ''abcdefghijklmnopqrstuvwxyzABCDEFGHIJKLMNOPQRSTUVWXYZ0123456789_''"

definition is_space :: "char \<Rightarrow> bool" where
  "is_space c \<longleftrightarrow>
     c \<in> set [CHR 0x09, CHR 0x0A, CHR 0x0B, CHR 0x0C, CHR 0x0D,
              CHR 0x1C, CHR 0x1D, CHR 0x1E, CHR 0x1F, CHR 0x20]"

definition lower_char :: "char \<Rightarrow> char" where
  "lower_char c =
     (case map_of (zip ''ABCDEFGHIJKLMNOPQRSTUVWXYZ'' ''abcdefghijklmnopqrstuvwxyz'') c of
        Some d \<Rightarrow> d
      | None \<Rightarrow> c)"

definition lower :: "string \<Rightarrow> string" where
  "lower s = map lower_char s"

text \<open>\<open>s.endswith(suffix)\<close>\<close>

definition endswith :: "string \<Rightarrow> string \<Rightarrow> bool" where
  "endswith s suffix \<longleftrightarrow>
     length suffix \<le> length s \<and> drop (length s - length suffix) s = suffix"

text \<open>
  The pieces the patterns are made of. Each takes the text at the current position and
  returns what is left after the piece, or \<open>None\<close> when the piece does not match there.
  \<open>keyword\<close> is a literal (given in lower case) matched ignoring case; \<open>spaces0\<close> is
  \<open>\s*\<close>, \<open>spaces1\<close> is \<open>\s+\<close> and \<open>word1\<close> is the group \<open>(\w+)\<close>, all greedy.
  In the patterns below a greedy piece is always followed by a piece that cannot start with
  a character the greedy piece accepts, so giving back characters never finds another match
  and the longest match is the only one the regular expression engine can return.
\<close>

definition keyword :: "string \<Rightarrow> string \<Rightarrow> string option" where
  "keyword kw s =
     (if length kw \<le> length s \<and> lower (take (length kw) s) = kw
      then Some (drop (length kw) s) else None)"

definition spaces0 :: "string \<Rightarrow> string" where
  "spaces0 s = dropWhile is_space s"

definition spaces1 :: "string \<Rightarrow> string option" where
  "spaces1 s = (case s of [] \<Rightarrow> None
                | c # cs \<Rightarrow> if is_space c then Some (dropWhile is_space cs) else None)"

definition word1 :: "string \<Rightarrow> (string \<times> string) option" where
  "word1 s = (case takeWhile is_word s of [] \<Rightarrow> None
              | w \<Rightarrow> Some (w, dropWhile is_word s))"

text \<open>\<open>(?:subroutine|function)\<close>, returning the text matched and the rest.\<close>

definition subroutine_or_function :: "string \<Rightarrow> (string \<times> string) option" where
  "subroutine_or_function s =
     (case keyword ''subroutine'' s of
        Some r \<Rightarrow> Some (take 10 s, r)
      | None \<Rightarrow> (case keyword ''function'' s of
                   Some r \<Rightarrow> Some (take 8 s, r)
                 | None \<Rightarrow> None))"

text \<open>
  \<open>^\s*(?:recursive\s+)?\<close>: the text after the leading white space and the optional
  \<open>recursive\<close> prefix. (When the prefix matches and the rest of the pattern then fails, the
  engine retries without the prefix and fails too, since the text there starts with
  \<open>recursive\<close> and not with \<open>subroutine\<close> or \<open>function\<close>.)
\<close>

definition after_prefix :: "string \<Rightarrow> string" where
  "after_prefix line =
     (let s = spaces0 line
      in case keyword ''recursive'' s of
           None \<Rightarrow> s
         | Some r \<Rightarrow> (case spaces1 r of None \<Rightarrow> s | Some r' \<Rightarrow> r'))"

text \<open>
  \<open>routine_pattern.match(line)\<close> of check\_object.py,
  \<open>^\s*(?:recursive\s+)?(subroutine|function)\s+(\w+)\<close>: groups 1 and 2.
\<close>

definition routine_pattern :: "string \<Rightarrow> (string \<times> string) option" where
  "routine_pattern line =
     (case subroutine_or_function (after_prefix line) of
        None \<Rightarrow> None
      | Some (kw, r) \<Rightarrow>
          (case spaces1 r of
             None \<Rightarrow> None
           | Some r' \<Rightarrow> (case word1 r' of None \<Rightarrow> None | Some (w, _) \<Rightarrow> Some (kw, w))))"

text \<open>
  \<open>routine_start.match(line)\<close> of adjacency\_matrix.py,
  \<open>^\s*(?:recursive\s+)?(?:subroutine|function)\s+(\w+)\<close>: group 1.
\<close>

definition routine_start :: "string \<Rightarrow> string option" where
  "routine_start line =
     (case subroutine_or_function (after_prefix line) of
        None \<Rightarrow> None
      | Some (_, r) \<Rightarrow>
          (case spaces1 r of
             None \<Rightarrow> None
           | Some r' \<Rightarrow> (case word1 r' of None \<Rightarrow> None | Some (w, _) \<Rightarrow> Some w)))"

text \<open>\<open>routine_end.match(line)\<close>, \<open>^\s*end\s+(?:subroutine|function)\<close>: matched or not.\<close>

definition routine_end :: "string \<Rightarrow> bool" where
  "routine_end line =
     (case keyword ''end'' (spaces0 line) of
        None \<Rightarrow> False
      | Some r \<Rightarrow> (case spaces1 r of
                    None \<Rightarrow> False
                  | Some r' \<Rightarrow> subroutine_or_function r' \<noteq> None))"

text \<open>\<open>module_pattern.match(line)\<close>, \<open>^\s*module\s+(\w+)\<close>: group 1.\<close>

definition module_pattern :: "string \<Rightarrow> string option" where
  "module_pattern line =
     (case keyword ''module'' (spaces0 line) of
        None \<Rightarrow> None
      | Some r \<Rightarrow> (case spaces1 r of
                    None \<Rightarrow> None
                  | Some r' \<Rightarrow> (case word1 r' of None \<Rightarrow> None | Some (w, _) \<Rightarrow> Some w)))"

text \<open>
  \<open>call_pattern\<close>, \<open>(?:call\s+|(?<=\W))(\w+)\s*\(\<close>. \<open>word_paren\<close> is the common tail
  \<open>(\w+)\s*\(\<close>: the word, and the text after the parenthesis. \<open>call_pattern_at prev s\<close>
  tries the pattern at one position, \<open>prev\<close> being the character before it (\<open>None\<close> at the
  start of the line): first the alternative \<open>call\s+\<close>, then the look-behind for a
  character that is not a word character. It returns group 1 and the number of characters
  the match takes.
\<close>

definition word_paren :: "string \<Rightarrow> (string \<times> string) option" where
  "word_paren s =
     (case word1 s of
        None \<Rightarrow> None
      | Some (w, r) \<Rightarrow> (case spaces0 r of
                         c # r' \<Rightarrow> if c = CHR ''('' then Some (w, r') else None
                       | [] \<Rightarrow> None))"

definition call_pattern_at :: "char option \<Rightarrow> string \<Rightarrow> (string \<times> nat) option" where
  "call_pattern_at prev s =
     (let alt1 = (case keyword ''call'' s of
                    None \<Rightarrow> None
                  | Some r \<Rightarrow> (case spaces1 r of None \<Rightarrow> None | Some r' \<Rightarrow> word_paren r'));
          alt2 = (case prev of
                    None \<Rightarrow> None
                  | Some c \<Rightarrow> if is_word c then None else word_paren s)
      in case (case alt1 of Some m \<Rightarrow> Some m | None \<Rightarrow> alt2) of
           None \<Rightarrow> None
         | Some (w, rest) \<Rightarrow> Some (w, length s - length rest))"

text \<open>
  \<open>call_pattern.findall(line)\<close>: the matches from left to right, not overlapping; after a
  match the search resumes where the match ended. \<open>skip\<close> counts the characters of the
  last match that are still to be passed over.
\<close>

fun findall_from :: "nat \<Rightarrow> char option \<Rightarrow> string \<Rightarrow> string list" where
  "findall_from skip prev [] = []"
| "findall_from skip prev (c # cs) =
     (if 0 < skip then findall_from (skip - 1) (Some c) cs
      else (case call_pattern_at prev (c # cs) of
              None \<Rightarrow> findall_from 0 (Some c) cs
            | Some (w, n) \<Rightarrow> w # findall_from (n - 1) (Some c) cs))"

definition call_pattern_findall :: "string \<Rightarrow> string list" where
  "call_pattern_findall line = findall_from 0 None line"

text \<open>
  \<open>re.sub(r'&\s*\n\s*', '', content)\<close>: an ampersand followed by white space that holds a
  line feed is removed together with all of that white space.
\<close>

function join_continuations :: "string \<Rightarrow> string" where
  "join_continuations [] = []"
| "join_continuations (c # cs) =
     (if c = CHR ''&'' \<and> CHR 0x0A \<in> set (takeWhile is_space cs)
      then join_continuations (dropWhile is_space cs)
      else c # join_continuations cs)"
  by pat_completeness auto
termination
  by (relation "measure length") (auto simp: less_Suc_eq_le length_dropWhile_le)

text \<open>
  \<open>str.splitlines()\<close>: the line boundaries among ASCII characters are line feed, carriage
  return (a carriage return and line feed pair is one boundary), vertical tab, form feed and
  the separators 0x1C, 0x1D, 0x1E; there is no empty last line.
\<close>

definition is_linebreak :: "char \<Rightarrow> bool" where
  "is_linebreak c \<longleftrightarrow>
     c \<in> set [CHR 0x0A, CHR 0x0B, CHR 0x0C, CHR 0x0D, CHR 0x1C, CHR 0x1D, CHR 0x1E]"

fun splitlines_from :: "string \<Rightarrow> string \<Rightarrow> string list" where
  "splitlines_from cur [] = (if cur = [] then [] else [cur])"
| "splitlines_from cur [c] = (if is_linebreak c then [cur] else [cur @ [c]])"
| "splitlines_from cur (c # d # cs) =
     (if c = CHR 0x0D \<and> d = CHR 0x0A then cur # splitlines_from [] cs
      else if is_linebreak c then cur # splitlines_from [] (d # cs)
      else splitlines_from (cur @ [c]) (d # cs))"

definition splitlines :: "string \<Rightarrow> string list" where
  "splitlines content = splitlines_from [] content"

section \<open>Files and errors\<close>

text \<open>
  What the tools see of the file system. The path they are given either does not exist, or
  is something else than a directory, or is a directory; \<open>os.listdir\<close> gives its entries in
  some order, and an entry is a name with the text \<open>f.read()\<close> returns for it (\<open>None\<close> when
  the entry cannot be opened or decoded, which makes \<open>open\<close> or \<open>read\<close> raise).
\<close>

datatype py_error = FileNotFoundError | NotADirectoryError | OSError | ValueError

type_synonym dir_entry = "string \<times> string option"

datatype fs_node = Missing | NotDir | Dir "dir_entry list"

section \<open>adjacency\_matrix.py\<close>

text \<open>
  \<open>all_routines\<close> is a Python dict from routine name to list of callees: an association
  list in insertion order. \<open>dict_set\<close> is \<open>d[k] = v\<close> (an existing key keeps its place) and
  \<open>dict_append\<close> is \<open>d[k].append(x)\<close>. For a key that is absent Python raises
  \<open>KeyError\<close> there; the scanner only appends under \<open>current_routine\<close>, which it has stored
  as a key before (lemma \<open>scan_line_current_key\<close>), so that branch is not modelled.
\<close>

type_synonym routines = "(string \<times> string list) list"

fun dict_set :: "string \<Rightarrow> 'v \<Rightarrow> (string \<times> 'v) list \<Rightarrow> (string \<times> 'v) list" where
  "dict_set k v [] = [(k, v)]"
| "dict_set k v ((k', v') # d) = (if k' = k then (k, v) # d else (k', v') # dict_set k v d)"

fun dict_append :: "string \<Rightarrow> 'v \<Rightarrow> (string \<times> 'v list) list \<Rightarrow> (string \<times> 'v list) list" where
  "dict_append k x [] = []"
| "dict_append k x ((k', v) # d) =
     (if k' = k then (k', v @ [x]) # d else (k', v) # dict_append k x d)"

text \<open>
  The loop over \<open>found_calls\<close>: every call is put in lower case and appended to the current
  routine's list unless it is the current routine itself.
\<close>

definition record_calls :: "string \<Rightarrow> string list \<Rightarrow> routines \<Rightarrow> routines" where
  "record_calls current_routine found_calls all_routines =
     fold (\<lambda>call all. if lower call \<noteq> current_routine
                        then dict_append current_routine (lower call) all else all)
       found_calls all_routines"

text \<open>
  The body of the loop over the lines. The state is \<open>all_routines\<close> and
  \<open>current_routine\<close>. (\<open>if current_routine:\<close> holds exactly when a routine is set: its name
  is a match of \<open>\w+\<close> and so not the empty string.)
\<close>

definition scan_line :: "string \<Rightarrow> routines \<times> string option \<Rightarrow> routines \<times> string option" where
  "scan_line line st =
     (let (all_routines, current_routine) = st;
          (all_routines, current_routine) =
            (case routine_start line of
               Some name \<Rightarrow> (dict_set (lower name) [] all_routines, Some (lower name))
             | None \<Rightarrow> if routine_end line then (all_routines, None)
                        else (all_routines, current_routine))
      in case current_routine of
           None \<Rightarrow> (all_routines, current_routine)
         | Some r \<Rightarrow> (record_calls r (call_pattern_findall line) all_routines, current_routine))"

text \<open>One file: continuations joined, lines split, \<open>current_routine = None\<close> at the start.\<close>

definition scan_lines :: "string list \<Rightarrow> routines \<Rightarrow> routines" where
  "scan_lines lines all_routines = fst (fold scan_line lines (all_routines, None))"

definition scan_content :: "string \<Rightarrow> routines \<Rightarrow> routines" where
  "scan_content content all_routines =
     scan_lines (splitlines (join_continuations content)) all_routines"

text \<open>The loop over \<open>os.listdir(directory)\<close>: only names that end in \<open>.f90\<close> are opened.\<close>

fun scan_files :: "dir_entry list \<Rightarrow> routines \<Rightarrow> py_error + routines" where
  "scan_files [] all_routines = Inr all_routines"
| "scan_files ((filename, content) # rest) all_routines =
     (if endswith filename ''.f90''
      then (case content of
              None \<Rightarrow> Inl OSError
            | Some text \<Rightarrow> scan_files rest (scan_content text all_routines))
      else scan_files rest all_routines)"

text \<open>
  Steps 3 to 5: the universe, the matrix of zeros, the cells set to 1 (\<open>fill_callees\<close> is
  the inner loop over the callees of one caller, \<open>fill_matrix\<close> the loop over
  \<open>all_routines.items()\<close>).
\<close>

definition fill_callees :: "string list \<Rightarrow> string \<Rightarrow> string list \<Rightarrow> dataframe \<Rightarrow> dataframe" where
  "fill_callees universe caller callees matrix =
     fold (\<lambda>callee m. if callee \<in> set universe then at_set callee caller 1 m else m)
       callees matrix"

definition fill_matrix :: "routines \<Rightarrow> string list \<Rightarrow> dataframe \<Rightarrow> dataframe" where
  "fill_matrix all_routines universe matrix =
     fold (\<lambda>(caller, callees) m. fill_callees universe caller callees m) all_routines matrix"

definition assemble :: "routines \<Rightarrow> dataframe" where
  "assemble all_routines =
     (let universe = sort (map fst all_routines);
          matrix = DataFrame0 universe universe
      in fill_matrix all_routines universe matrix)"

definition generate_fortran_matrix :: "fs_node \<Rightarrow> py_error + dataframe" where
  "generate_fortran_matrix directory =
     (case directory of
        Missing \<Rightarrow> Inl FileNotFoundError
      | NotDir \<Rightarrow> Inl NotADirectoryError
      | Dir entries \<Rightarrow> (case scan_files entries [] of
                         Inl e \<Rightarrow> Inl e
                       | Inr all_routines \<Rightarrow> Inr (assemble all_routines)))"

text \<open>
  Properties of the scanner's state used below: no routine is listed among its own callees;
  and, with that, the keys are pairwise distinct and the current routine is a key.
\<close>

definition no_self_calls :: "routines \<Rightarrow> bool" where
  "no_self_calls all_routines \<longleftrightarrow>
     list_all (\<lambda>(r, callees). r \<notin> set callees) all_routines"

definition scan_inv :: "routines \<times> string option \<Rightarrow> bool" where
  "scan_inv st \<longleftrightarrow> distinct (map fst (fst st)) \<and> no_self_calls (fst st) \<and>
     (case snd st of None \<Rightarrow> True | Some r \<Rightarrow> r \<in> fst ` set (fst st))"

section \<open>Which calls end up in the mapping\<close>

text \<open>
  The cursor alone: \<open>next_routine line cur\<close> is \<open>current_routine\<close> at the moment the calls
  of \<open>line\<close> are recorded, given its value before the line. \<open>declares r line\<close> says that
  \<open>line\<close> is a routine-start line for \<open>r\<close> (which stores the empty list under \<open>r\<close>).
  \<open>logical_lines\<close> are the lines the scanner walks through for a file's text.
\<close>

definition next_routine :: "string \<Rightarrow> string option \<Rightarrow> string option" where
  "next_routine line current_routine =
     (case routine_start line of
        Some name \<Rightarrow> Some (lower name)
      | None \<Rightarrow> if routine_end line then None else current_routine)"

definition declares :: "string \<Rightarrow> string \<Rightarrow> bool" where
  "declares r line \<longleftrightarrow>
     (case routine_start line of Some name \<Rightarrow> lower name = r | None \<Rightarrow> False)"

definition logical_lines :: "string \<Rightarrow> string list" where
  "logical_lines content = splitlines (join_continuations content)"

text \<open>
  A condition on the source under which the call of \<open>b\<close> by \<open>a\<close> is kept: some line is
  scanned while \<open>a\<close> is the current routine and holds \<open>b\<close> as a match of \<open>call_pattern\<close>,
  and no line after it, in this file or in a file read later, declares \<open>a\<close> again.
  \<open>call_kept_from cur lines a b\<close> looks for such a line in one file, \<open>cur\<close> being the
  cursor before the first of \<open>lines\<close>; \<open>call_kept entries a b\<close> looks through the
  directory, in the order in which the files are read.
\<close>

fun call_kept_from :: "string option \<Rightarrow> string list \<Rightarrow> string \<Rightarrow> string \<Rightarrow> bool" where
  "call_kept_from cur [] a b = False"
| "call_kept_from cur (line # rest) a b =
     ((next_routine line cur = Some a \<and> b \<noteq> a \<and>
       b \<in> set (map lower (call_pattern_findall line)) \<and>
       list_all (\<lambda>l. \<not> declares a l) rest)
      \<or> call_kept_from (next_routine line cur) rest a b)"

fun not_declared_in :: "dir_entry list \<Rightarrow> string \<Rightarrow> bool" where
  "not_declared_in [] a = True"
| "not_declared_in ((filename, content) # rest) a =
     ((if endswith filename ''.f90''
       then (case content of
               None \<Rightarrow> True
             | Some text \<Rightarrow> list_all (\<lambda>l. \<not> declares a l) (logical_lines text))
       else True)
      \<and> not_declared_in rest a)"

fun call_kept :: "dir_entry list \<Rightarrow> string \<Rightarrow> string \<Rightarrow> bool" where
  "call_kept [] a b = False"
| "call_kept ((filename, content) # rest) a b =
     ((endswith filename ''.f90'' \<and>
       (case content of
          None \<Rightarrow> False
        | Some text \<Rightarrow> call_kept_from None (logical_lines text) a b) \<and>
       not_declared_in rest a)
      \<or> call_kept rest a b)"

section \<open>check\_object.py\<close>

record inventory_record =
  obj_name :: string
  module_nm :: string
  rtype :: string

text \<open>
  One dict of the inventory, with its keys \<open>obj_name\<close>, \<open>module_name\<close> (here
  \<open>module_nm\<close>) and \<open>type\<close> (here \<open>rtype\<close>, as the variable that fills it).
  The inventory is the list of dicts the frame is built from; the empty list gives the empty
  frame. The state of the loop over the lines is \<open>current_module\<close> and \<open>inventory\<close>.
\<close>

definition inventory_line ::
  "string \<Rightarrow> string \<times> inventory_record list \<Rightarrow> string \<times> inventory_record list" where
  "inventory_line line st =
     (let (current_module, inventory) = st;
          current_module = (case module_pattern line of
                              Some name \<Rightarrow> lower name
                            | None \<Rightarrow> current_module)
      in case routine_pattern line of
           Some (kw, name) \<Rightarrow>
             (current_module,
              inventory @ [\<lparr>obj_name = lower name, module_nm = current_module,
                            rtype = lower kw\<rparr>])
         | None \<Rightarrow> (current_module, inventory))"

definition inventory_content :: "string \<Rightarrow> inventory_record list \<Rightarrow> inventory_record list" where
  "inventory_content content inventory =
     snd (fold inventory_line (splitlines (join_continuations content)) (''External'', inventory))"

fun inventory_files :: "dir_entry list \<Rightarrow> inventory_record list \<Rightarrow> py_error + inventory_record list" where
  "inventory_files [] inventory = Inr inventory"
| "inventory_files ((filename, content) # rest) inventory =
     (if endswith filename ''.f90'' \<or> endswith filename ''.F90'' \<or> endswith filename ''.f95''
      then (case content of
              None \<Rightarrow> Inl OSError
            | Some text \<Rightarrow> inventory_files rest (inventory_content text inventory))
      else inventory_files rest inventory)"

text \<open>
  \<open>scan_fortran_directory\<close>: what it prints, and what it returns or raises. \<open>path\<close> is the
  argument as the user gave it, \<open>directory\<close> what is found there.
\<close>

definition scan_fortran_directory ::
  "string \<Rightarrow> fs_node \<Rightarrow> string list \<times> (py_error + inventory_record list)" where
  "scan_fortran_directory path directory =
     (case directory of
        Missing \<Rightarrow> ([''Error: Directory '' @ [CHR 0x27] @ path @ [CHR 0x27] @ '' does not exist.''],
                    Inr [])
      | NotDir \<Rightarrow> ([], Inl NotADirectoryError)
      | Dir entries \<Rightarrow> ([], inventory_files entries []))"

section \<open>main.py: the report composer\<close>





section \<open>Example inputs\<close>

text \<open>
  The matrix of the specification's end-to-end example: \<open>alpha\<close> calls \<open>beta\<close>, so the
  cell in row \<open>beta\<close>, column \<open>alpha\<close> is 1. And a matrix of two routines that call nothing,
  whose row sums (and column sums) are tied.
\<close>

definition example_matrix :: dataframe where
  "example_matrix =
     \<lparr>index = [''alpha'', ''beta''], columns = [''alpha'', ''beta''], vals = [[0, 0], [1, 0]]\<rparr>"

definition tied_matrix :: dataframe where
  "tied_matrix = \<lparr>index = [''a'', ''b''], columns = [''a'', ''b''], vals = [[0, 0], [0, 0]]\<rparr>"

text \<open>
  Three routines, \<open>c\<close> called by \<open>a\<close> and by \<open>b\<close>: the row sums of \<open>a\<close> and \<open>b\<close> are
  tied at 0, and so are the column sums of \<open>a\<close> and \<open>b\<close> at 1.
\<close>

definition fan_in_matrix :: dataframe where
  "fan_in_matrix =
     \<lparr>index = [''a'', ''b'', ''c''], columns = [''a'', ''b'', ''c''],
      vals = [[0, 0, 0], [0, 0, 0], [1, 1, 0]]\<rparr>"

text \<open>
  Source texts. In \<open>cycle_source\<close> routine \<open>a\<close> calls itself and \<open>b\<close>, and \<open>b\<close> calls
  \<open>a\<close>. In \<open>redeclared_lines\<close> the routine \<open>foo\<close> is declared twice, the first time with
  a call of \<open>bar\<close>. \<open>bare_call_lines\<close> has a call statement without an argument list.
\<close>

definition cycle_source :: string where
  "cycle_source =
     ''subroutine a'' @ [CHR 0x0A] @
     ''  call a(1)'' @ [CHR 0x0A] @
     ''  call b(1)'' @ [CHR 0x0A] @
     ''end subroutine a'' @ [CHR 0x0A] @
     ''subroutine b'' @ [CHR 0x0A] @
     ''  call a(2)'' @ [CHR 0x0A] @
     ''end subroutine b'' @ [CHR 0x0A]"

definition redeclared_lines :: "string list" where
  "redeclared_lines =
     [''subroutine foo'', ''  call bar(1)'', ''end subroutine foo'',
      ''subroutine foo'', ''end subroutine foo'']"

definition bare_call_lines :: "string list" where
  "bare_call_lines = [''subroutine bar'', ''  call foo'', ''end subroutine bar'']"

text \<open>
  A directory with one source file of extension \<open>.F90\<close>, one of extension \<open>.f95\<close>, and
  a file that neither tool reads.
\<close>

definition other_extensions_dir :: fs_node where
  "other_extensions_dir =
     Dir [(''solver.F90'',
           Some (''subroutine foo'' @ [CHR 0x0A] @ ''end subroutine foo'' @ [CHR 0x0A])),
          (''legacy.f95'',
           Some (''function bar(x)'' @ [CHR 0x0A] @ ''end function bar'' @ [CHR 0x0A])),
          (''notes.txt'', Some ''subroutine ignored'')]"

text \<open>The raw callees of the specification's end-to-end example, and an inventory that
  knows only routine \<open>a\<close>.\<close>

definition example_routines :: routines where
  "example_routines = [(''alpha'', [''beta'', ''gamma'']), (''beta'', [])]"



text \<open>
  A source in which \<open>a\<close> calls \<open>b\<close> and \<open>b\<close> calls \<open>a\<close>, where \<open>b\<close> states the interface
  of \<open>a\<close> in an interface block before it calls it.
\<close>

definition interface_cycle_source :: string where
  "interface_cycle_source =
     ''subroutine a(x)'' @ [CHR 0x0A] @
     ''  call b(x)'' @ [CHR 0x0A] @
     ''end subroutine a'' @ [CHR 0x0A] @
     ''subroutine b(x)'' @ [CHR 0x0A] @
     ''  interface'' @ [CHR 0x0A] @
     ''    subroutine a(x)'' @ [CHR 0x0A] @
     ''    end subroutine a'' @ [CHR 0x0A] @
     ''  end interface'' @ [CHR 0x0A] @
     ''  call a(x)'' @ [CHR 0x0A] @
     ''end subroutine b'' @ [CHR 0x0A]"

section \<open>Lemmas: selection by label, sums, sorting\<close>

lemma filter_key_distinct:
  "distinct (map fst ps) \<Longrightarrow> p \<in> set ps \<Longrightarrow> filter (\<lambda>q. fst q = fst p) ps = [p]"
proof (induction ps)
  case Nil
  then show ?case by simp
next
  case (Cons a ps)
  show ?case
  proof (cases "a = p")
    case True
    have "fst p \<notin> fst ` set ps" using Cons.prems True by simp
    then have "\<forall>q \<in> set ps. fst q \<noteq> fst p" by (auto simp: image_iff)
    then have "filter (\<lambda>q. fst q = fst p) ps = []" by (simp add: filter_empty_conv)
    with True show ?thesis by simp
  next
    case False
    then have mem: "p \<in> set ps" using Cons.prems by simp
    have "fst a \<notin> fst ` set ps" using Cons.prems by simp
    with mem have "fst a \<noteq> fst p" by (auto simp: image_iff)
    with mem show ?thesis using Cons by simp
  qed
qed

lemma concat_filter_keys:
  assumes d: "distinct (map fst ps)"
  shows "concat (map (\<lambda>l. filter (\<lambda>q. fst q = l) ps) (map fst ps)) = ps"
proof -
  have h1: "map (\<lambda>l. filter (\<lambda>q. fst q = l) ps) (map fst ps) = map (\<lambda>p. [p]) ps"
    using filter_key_distinct [OF d] by (simp add: comp_def)
  have h2: "concat (map (\<lambda>p. [p]) qs) = qs" for qs :: "'c list"
    by (induction qs) simp_all
  show ?thesis unfolding h1 by (rule h2)
qed

lemma mset_concat_map_cong:
  "mset xs = mset ys \<Longrightarrow> mset (concat (map f xs)) = mset (concat (map f ys))"
proof -
  assume "mset xs = mset ys"
  then have "image_mset (\<lambda>x. mset (f x)) (mset xs) = image_mset (\<lambda>x. mset (f x)) (mset ys)" by simp
  then have "sum_mset (image_mset (\<lambda>x. mset (f x)) (mset xs)) = sum_mset (image_mset (\<lambda>x. mset (f x)) (mset ys))" by simp
  then show ?thesis by (simp add: mset_concat comp_def flip: sum_mset_sum_list)
qed

lemma mset_concat_filter_keys:
  assumes "distinct (map fst ps)" and "mset labels = mset (map fst ps)"
  shows "mset (concat (map (\<lambda>l. filter (\<lambda>q. fst q = l) ps) labels)) = mset ps"
proof -
  have "mset (concat (map (\<lambda>l. filter (\<lambda>q. fst q = l) ps) labels))
      = mset (concat (map (\<lambda>l. filter (\<lambda>q. fst q = l) ps) (map fst ps)))"
    by (rule mset_concat_map_cong) (rule assms(2))
  then show ?thesis using concat_filter_keys [OF assms(1)] by simp
qed


lemma filter_key_lookup:
  assumes "distinct (map fst ps)" and "l \<in> fst ` set ps"
  shows "filter (\<lambda>q. fst q = l) ps = [(l, the (map_of ps l))]"
proof -
  from assms(2) obtain v where mem: "(l, v) \<in> set ps" by force
  with assms(1) have "map_of ps l = Some v" by simp
  with filter_key_distinct [OF assms(1) mem] show ?thesis by simp
qed

lemma select_lookup:
  assumes "distinct (map fst ps)" and "set labels \<subseteq> fst ` set ps"
  shows "concat (map (\<lambda>l. filter (\<lambda>q. fst q = l) ps) labels)
       = map (\<lambda>l. (l, the (map_of ps l))) labels"
  using assms(2)
proof (induction labels)
  case Nil
  then show ?case by simp
next
  case (Cons l labels)
  then show ?case using filter_key_lookup [OF assms(1), of l] by simp
qed

lemma by_key:
  "\<forall>p \<in> set t. snd p = g (fst p) \<Longrightarrow> t = map (\<lambda>l. (l, g l)) (map fst t)"
  by (induction t) auto

lemma sorts_desc_mset: "sorts_desc srt \<Longrightarrow> mset (srt s) = mset s"
  by (simp add: sorts_desc_def)

lemma sorts_desc_set: "sorts_desc srt \<Longrightarrow> set (srt s) = set s"
  using sorts_desc_mset [of srt s] by (metis set_mset_mset)

lemma sorts_desc_keys: "sorts_desc srt \<Longrightarrow> mset (map fst (srt s)) = mset (map fst s)"
  using sorts_desc_mset [of srt s] by (metis mset_map)

lemma sorts_desc_sorted: "sorts_desc srt \<Longrightarrow> sorted_wrt (\<lambda>p q. snd q \<le> snd p) (srt s)"
  by (simp add: sorts_desc_def)

lemma map_fst_sum_axis1: "rect df \<Longrightarrow> map fst (sum_axis1 df) = index df"
  by (simp add: rect_def sum_axis1_def)

lemma map_fst_sum_axis0: "map fst (sum_axis0 df) = columns df"
  by (simp add: sum_axis0_def comp_def map_nth)

lemma columns_loc_rows: "columns (loc_rows labels df) = columns df"
  by (simp add: loc_rows_def Let_def)

lemma index_select_cols: "index (select_cols labels df) = index df"
  by (simp add: select_cols_def)

lemma rect_loc_rows: "rect df \<Longrightarrow> rect (loc_rows labels df)"
proof -
  assume r: "rect df"
  let ?sel = "concat (map (\<lambda>l. filter (\<lambda>p. fst p = l) (zip (index df) (vals df))) labels)"
  have "set ?sel \<subseteq> set (zip (index df) (vals df))" by auto
  then have "snd ` set ?sel \<subseteq> set (vals df)" by (auto dest: set_zip_rightD)
  moreover have "\<forall>row \<in> set (vals df). length row = length (columns df)"
    using r by (simp add: rect_def list_all_iff)
  ultimately have "\<forall>row \<in> snd ` set ?sel. length row = length (columns df)"
    by blast
  then show ?thesis
    by (simp add: rect_def loc_rows_def Let_def list_all_iff)
qed

lemma loc_rows_lookup:
  assumes "rect df" and "distinct (index df)" and "set labels \<subseteq> set (index df)"
  shows "loc_rows labels df =
     df\<lparr>index := labels, vals := map (\<lambda>l. the (map_of (zip (index df) (vals df)) l)) labels\<rparr>"
proof -
  let ?ps = "zip (index df) (vals df)"
  have len: "length (index df) = length (vals df)" using assms(1) by (simp add: rect_def)
  then have k: "map fst ?ps = index df" by simp
  have d: "distinct (map fst ?ps)" using assms(2) k by simp
  have s: "set labels \<subseteq> fst ` set ?ps" using assms(3) k by (metis set_map)
  show ?thesis
    unfolding loc_rows_def Let_def select_lookup [OF d s] by (simp add: comp_def)
qed

lemma mset_vals_loc_rows:
  assumes "rect df" and "distinct (index df)" and "mset labels = mset (index df)"
  shows "mset (vals (loc_rows labels df)) = mset (vals df)"
proof -
  let ?ps = "zip (index df) (vals df)"
  have len: "length (index df) = length (vals df)" using assms(1) by (simp add: rect_def)
  then have k: "map fst ?ps = index df" by simp
  have d: "distinct (map fst ?ps)" using assms(2) k by simp
  have "mset (concat (map (\<lambda>l. filter (\<lambda>q. fst q = l) ?ps) labels)) = mset ?ps"
    by (rule mset_concat_filter_keys [OF d]) (simp add: assms(3) k)
  then have "image_mset snd (mset (concat (map (\<lambda>l. filter (\<lambda>q. fst q = l) ?ps) labels)))
           = image_mset snd (mset ?ps)" by simp
  moreover have "image_mset snd (mset ?ps) = mset (vals df)"
    using len by (metis map_snd_zip mset_map)
  ultimately show ?thesis by (simp add: loc_rows_def Let_def)
qed

lemma sum_axis0_cong:
  assumes "columns df' = columns df" and "mset (vals df') = mset (vals df)"
  shows "sum_axis0 df' = sum_axis0 df"
proof -
  have "sum_list (map f (vals df')) = sum_list (map f (vals df))" for f :: "int list \<Rightarrow> int"
  proof -
    have "sum_mset (image_mset f (mset (vals df'))) = sum_mset (image_mset f (mset (vals df)))"
      by (simp add: assms(2))
    then show ?thesis by (metis mset_map sum_mset_sum_list)
  qed
  then show ?thesis by (simp add: sum_axis0_def assms(1))
qed

lemma sum_axis0_loc_rows:
  assumes "rect df" and "distinct (index df)" and "mset labels = mset (index df)"
  shows "sum_axis0 (loc_rows labels df) = sum_axis0 df"
  by (rule sum_axis0_cong) (simp_all add: columns_loc_rows mset_vals_loc_rows [OF assms])

lemma reorder_two_phase_eq:
  assumes "rect df" and "distinct (index df)" and "sorts_desc srt"
  shows "reorder_by_sum srt df = reorder_independent srt df"
proof -
  have "mset (map fst (srt (sum_axis1 df))) = mset (index df)"
    using sorts_desc_keys [OF assms(3), of "sum_axis1 df"] map_fst_sum_axis1 [OF assms(1)] by simp
  then have "sum_axis0 (loc_rows (map fst (srt (sum_axis1 df))) df) = sum_axis0 df"
    by (rule sum_axis0_loc_rows [OF assms(1,2)])
  then show ?thesis by (simp add: reorder_by_sum_def reorder_independent_def Let_def)
qed

lemma map_nth_fun: "map (\<lambda>j. f (xs ! j)) [0..<length xs] = map f xs"
proof -
  have "map f xs = map f (map (\<lambda>j. xs ! j) [0..<length xs])" by (simp only: map_nth)
  also have "\<dots> = map (\<lambda>j. f (xs ! j)) [0..<length xs]" by (simp only: map_map comp_def)
  finally show ?thesis by (rule sym)
qed

lemma pick_lookup:
  assumes "distinct cols" and "length row = length cols" and "set labels \<subseteq> set cols"
  shows "pick labels cols row = map (\<lambda>l. the (map_of (zip cols row) l)) labels"
proof -
  let ?ps = "zip cols row"
  have k: "map fst ?ps = cols" using assms(2) by simp
  have d: "distinct (map fst ?ps)" using assms(1) k by simp
  have s: "set labels \<subseteq> fst ` set ?ps" using assms(3) k by (metis set_map)
  have "pick labels cols row = map snd (concat (map (\<lambda>l. filter (\<lambda>p. fst p = l) ?ps) labels))"
    by (simp add: pick_def map_concat comp_def)
  then show ?thesis unfolding select_lookup [OF d s] by (simp add: comp_def)
qed

lemma pick_self:
  assumes "distinct cols" and "set labels \<subseteq> set cols"
  shows "pick labels cols cols = labels"
proof -
  have "the (map_of (zip cols cols) l) = l" if "l \<in> set cols" for l
  proof -
    from that obtain i where "i < length cols" "cols ! i = l" by (auto simp: in_set_conv_nth)
    then show ?thesis using map_of_zip_nth [of cols cols i] assms(1) by auto
  qed
  then have "map (\<lambda>l. the (map_of (zip cols cols) l)) labels = labels"
    using assms(2) by (simp add: map_idI subset_iff)
  then show ?thesis using pick_lookup [OF assms(1) refl assms(2)] by simp
qed

lemma mset_pick:
  assumes "distinct cols" and "length row = length cols" and "mset labels = mset cols"
  shows "mset (pick labels cols row) = mset row"
proof -
  let ?ps = "zip cols row"
  have k: "map fst ?ps = cols" using assms(2) by simp
  have d: "distinct (map fst ?ps)" using assms(1) k by simp
  have "pick labels cols row = map snd (concat (map (\<lambda>l. filter (\<lambda>p. fst p = l) ?ps) labels))"
    by (simp add: pick_def map_concat comp_def)
  moreover have "mset (concat (map (\<lambda>l. filter (\<lambda>q. fst q = l) ?ps) labels)) = mset ?ps"
    by (rule mset_concat_filter_keys [OF d]) (simp add: assms(3) k)
  moreover have "image_mset snd (mset ?ps) = mset row"
    using assms(2) by (metis map_snd_zip mset_map)
  ultimately show ?thesis by simp
qed

lemma select_cols_lookup:
  assumes "rect df" and "distinct (columns df)" and "set labels \<subseteq> set (columns df)"
  shows "select_cols labels df =
     df\<lparr>columns := labels,
        vals := map (\<lambda>row. map (\<lambda>l. the (map_of (zip (columns df) row) l)) labels) (vals df)\<rparr>"
proof -
  have "map (pick labels (columns df)) (vals df)
      = map (\<lambda>row. map (\<lambda>l. the (map_of (zip (columns df) row) l)) labels) (vals df)"
    using assms by (intro map_cong refl pick_lookup) (simp_all add: rect_def list_all_iff)
  then show ?thesis
    by (simp add: select_cols_def pick_self [OF assms(2,3)])
qed

lemma rect_select_cols:
  assumes "rect df" and "distinct (columns df)" and "set labels \<subseteq> set (columns df)"
  shows "rect (select_cols labels df)"
  unfolding select_cols_lookup [OF assms] using assms(1)
  by (simp add: rect_def list_all_iff)

lemma sum_axis1_select_cols:
  assumes "rect df" and "distinct (columns df)" and "mset labels = mset (columns df)"
  shows "sum_axis1 (select_cols labels df) = sum_axis1 df"
proof -
  have "sum_list (pick labels (columns df) row) = sum_list row" if "row \<in> set (vals df)" for row
  proof -
    have "length row = length (columns df)" using that assms(1) by (simp add: rect_def list_all_iff)
    then have "mset (pick labels (columns df) row) = mset row"
      using assms(2,3) by (intro mset_pick)
    then show ?thesis by (metis sum_mset_sum_list)
  qed
  then have "map sum_list (map (pick labels (columns df)) (vals df)) = map sum_list (vals df)"
    by simp
  then show ?thesis by (simp add: sum_axis1_def select_cols_def del: map_map)
qed

lemma sum_axis1_lookup_form:
  "sum_axis1 (df\<lparr>index := ro, vals := map h ro\<rparr>) = map (\<lambda>l. (l, sum_list (h l))) ro"
  by (induction ro) (simp_all add: sum_axis1_def)

lemma sum_axis0_lookup_form:
  "sum_axis0 (df\<lparr>columns := co, vals := map (\<lambda>row. map (h row) co) rows\<rparr>)
     = map (\<lambda>l. (l, sum_list (map (\<lambda>row. h row l) rows))) co"
proof -
  have "sum_axis0 (df\<lparr>columns := co, vals := map (\<lambda>row. map (h row) co) rows\<rparr>)
      = map (\<lambda>j. (co ! j, sum_list (map (\<lambda>row. h row (co ! j)) rows))) [0..<length co]"
    by (simp add: sum_axis0_def comp_def)
  also have "\<dots> = map (\<lambda>l. (l, sum_list (map (\<lambda>row. h row l) rows))) co"
    by (rule map_nth_fun [of "\<lambda>l. (l, sum_list (map (\<lambda>row. h row l) rows))" co])
  finally show ?thesis .
qed

lemma sum_axis1_loc_rows_sorted:
  assumes "rect df" and "distinct (index df)" and "sorts_desc srt"
  shows "sum_axis1 (loc_rows (map fst (srt (sum_axis1 df))) df) = srt (sum_axis1 df)"
proof -
  let ?ps = "zip (index df) (vals df)"
  let ?g = "\<lambda>l. sum_list (the (map_of ?ps l))"
  let ?ro = "map fst (srt (sum_axis1 df))"
  have len: "length (index df) = length (vals df)" using assms(1) by (simp add: rect_def)
  have "\<forall>p \<in> set (sum_axis1 df). snd p = ?g (fst p)"
  proof
    fix p assume "p \<in> set (sum_axis1 df)"
    then obtain i where i: "i < length (index df)" "p = (index df ! i, sum_list (vals df ! i))"
      using len by (auto simp: sum_axis1_def set_zip)
    then have "map_of ?ps (index df ! i) = Some (vals df ! i)"
      using map_of_zip_nth [of "index df" "vals df" i] len assms(2) by simp
    with i show "snd p = ?g (fst p)" by simp
  qed
  then have "\<forall>p \<in> set (srt (sum_axis1 df)). snd p = ?g (fst p)"
    using sorts_desc_set [OF assms(3)] by simp
  then have sorted_form: "srt (sum_axis1 df) = map (\<lambda>l. (l, ?g l)) ?ro" by (rule by_key)
  have "set ?ro = set (index df)"
    using sorts_desc_keys [OF assms(3), of "sum_axis1 df"] map_fst_sum_axis1 [OF assms(1)]
    by (metis set_mset_mset)
  then have sub: "set ?ro \<subseteq> set (index df)" by simp
  have "sum_axis1 (loc_rows ?ro df) = map (\<lambda>l. (l, ?g l)) ?ro"
    unfolding loc_rows_lookup [OF assms(1,2) sub] by (rule sum_axis1_lookup_form)
  with sorted_form show ?thesis by simp
qed

lemma sum_axis0_select_cols_sorted:
  assumes "rect df" and "distinct (columns df)" and "sorts_desc srt"
  shows "sum_axis0 (select_cols (map fst (srt (sum_axis0 df))) df) = srt (sum_axis0 df)"
proof -
  let ?cols = "columns df"
  let ?h = "\<lambda>row l. the (map_of (zip ?cols row) l)"
  let ?G = "\<lambda>l. sum_list (map (\<lambda>row. ?h row l) (vals df))"
  let ?co = "map fst (srt (sum_axis0 df))"
  have rows: "\<forall>row \<in> set (vals df). length row = length ?cols"
    using assms(1) by (simp add: rect_def list_all_iff)
  have "\<forall>p \<in> set (sum_axis0 df). snd p = ?G (fst p)"
  proof
    fix p assume "p \<in> set (sum_axis0 df)"
    then obtain j where j: "j < length ?cols"
      "p = (?cols ! j, sum_list (map (\<lambda>row. row ! j) (vals df)))"
      by (auto simp: sum_axis0_def)
    have "map (\<lambda>row. ?h row (?cols ! j)) (vals df) = map (\<lambda>row. row ! j) (vals df)"
    proof (rule map_cong [OF refl])
      fix row assume "row \<in> set (vals df)"
      then have "length row = length ?cols" using rows by simp
      then show "?h row (?cols ! j) = row ! j"
        using map_of_zip_nth [of ?cols row j] assms(2) j(1) by simp
    qed
    then show "snd p = ?G (fst p)" unfolding j(2) by (simp only: fst_conv snd_conv)
  qed
  then have "\<forall>p \<in> set (srt (sum_axis0 df)). snd p = ?G (fst p)"
    using sorts_desc_set [OF assms(3)] by simp
  then have sorted_form: "srt (sum_axis0 df) = map (\<lambda>l. (l, ?G l)) ?co" by (rule by_key)
  have "set ?co = set ?cols"
    using sorts_desc_keys [OF assms(3), of "sum_axis0 df"] map_fst_sum_axis0 [of df]
    by (metis set_mset_mset)
  then have sub: "set ?co \<subseteq> set ?cols" by simp
  have "sum_axis0 (select_cols ?co df) = map (\<lambda>l. (l, ?G l)) ?co"
    unfolding select_cols_lookup [OF assms(1,2) sub] by (rule sum_axis0_lookup_form)
  with sorted_form show ?thesis by simp
qed

lemma sorts_desc_stable_desc: "sorts_desc stable_desc"
proof -
  have "sorted (map (\<lambda>p. - snd p) (sort_key (\<lambda>p. - snd p) s))" for s :: series
    by (rule sorted_sort_key)
  then have "sorted_wrt (\<lambda>p q. snd q \<le> snd p) (sort_key (\<lambda>p. - snd p) s)" for s :: series
    by (simp add: sorted_map)
  then show ?thesis by (simp add: sorts_desc_def stable_desc_def)
qed

lemma keeps_ties_stable_desc: "keeps_ties stable_desc"
proof -
  have "filter (\<lambda>p. snd p = v) (sort_key (\<lambda>p. - snd p) s) = filter (\<lambda>p. snd p = v) s"
    for s :: series and v
    using sort_key_stable [of "\<lambda>p. - snd p" "- v" s] by simp
  then show ?thesis by (simp add: keeps_ties_def stable_desc_def)
qed

lemma sorts_desc_reversed_asc: "sorts_desc reversed_asc"
proof -
  have "sorted (map snd (sort_key snd s))" for s :: series
    by (rule sorted_sort_key)
  then have "sorted_wrt (\<lambda>p q. snd p \<le> snd q) (sort_key snd s)" for s :: series
    by (simp add: sorted_map)
  then have "sorted_wrt (\<lambda>p q. snd q \<le> snd p) (rev (sort_key snd s))" for s :: series
    by (simp add: sorted_wrt_rev)
  then show ?thesis by (simp add: sorts_desc_def reversed_asc_def)
qed

lemma stable_sorted_fix:
  assumes "sorts_desc srt" and "keeps_ties srt" and "sorted_wrt (\<lambda>p q. snd q \<le> snd p) s"
  shows "srt s = s"
proof -
  let ?f = "\<lambda>p::string \<times> int. - snd p"
  have "sort_key ?f s = srt s"
  proof (rule properties_for_sort_key)
    show "mset (srt s) = mset s" by (rule sorts_desc_mset [OF assms(1)])
    show "filter (\<lambda>x. ?f k = ?f x) (srt s) = filter (\<lambda>x. ?f k = ?f x) s" for k
    proof -
      have "filter (\<lambda>p. snd p = snd k) (srt s) = filter (\<lambda>p. snd p = snd k) s"
        using assms(2) unfolding keeps_ties_def by blast
      moreover have "(\<lambda>x. ?f k = ?f x) = (\<lambda>p. snd p = snd k)" by auto
      ultimately show ?thesis by simp
    qed
    show "sorted (map ?f (srt s))"
      using sorts_desc_sorted [OF assms(1), of s] by (simp add: sorted_map)
  qed
  moreover have "sort_key ?f s = s"
    using assms(3) by (intro sort_key_id_if_sorted) (simp add: sorted_map)
  ultimately show ?thesis by simp
qed

lemma loc_rows_self:
  assumes "rect df" and "distinct (index df)"
  shows "loc_rows (index df) df = df"
proof -
  let ?ps = "zip (index df) (vals df)"
  have len: "length (index df) = length (vals df)" using assms(1) by (simp add: rect_def)
  then have k: "map fst ?ps = index df" by simp
  have d: "distinct (map fst ?ps)" using assms(2) k by simp
  have "concat (map (\<lambda>l. filter (\<lambda>q. fst q = l) ?ps) (index df)) = ?ps"
    using concat_filter_keys [OF d] k by simp
  then show ?thesis using len by (simp add: loc_rows_def Let_def)
qed

lemma pick_all:
  assumes "distinct cols" and "length row = length cols"
  shows "pick cols cols row = row"
proof -
  let ?ps = "zip cols row"
  have k: "map fst ?ps = cols" using assms(2) by simp
  have d: "distinct (map fst ?ps)" using assms(1) k by simp
  have "pick cols cols row = map snd (concat (map (\<lambda>l. filter (\<lambda>p. fst p = l) ?ps) cols))"
    by (simp add: pick_def map_concat comp_def)
  also have "concat (map (\<lambda>l. filter (\<lambda>p. fst p = l) ?ps) cols) = ?ps"
    using concat_filter_keys [OF d] k by simp
  finally show ?thesis using assms(2) by simp
qed

lemma select_cols_self:
  assumes "rect df" and "distinct (columns df)"
  shows "select_cols (columns df) df = df"
proof -
  have "map (pick (columns df) (columns df)) (vals df) = vals df"
    using assms by (intro map_idI pick_all) (simp_all add: rect_def list_all_iff)
  then show ?thesis by (simp add: select_cols_def pick_all [OF assms(2) refl])
qed

lemma reorder_facts:
  assumes r: "rect df" and di: "distinct (index df)" and dc: "distinct (columns df)"
    and s: "sorts_desc srt"
  shows "rect (reorder_by_sum srt df)"
    and "sum_axis1 (reorder_by_sum srt df) = srt (sum_axis1 df)"
    and "sum_axis0 (reorder_by_sum srt df) = srt (sum_axis0 df)"
    and "distinct (index (reorder_by_sum srt df))"
    and "distinct (columns (reorder_by_sum srt df))"
proof -
  define ro where "ro = map fst (srt (sum_axis1 df))"
  define df1 where "df1 = loc_rows ro df"
  define co where "co = map fst (srt (sum_axis0 df1))"
  have R: "reorder_by_sum srt df = select_cols co df1"
    by (simp add: reorder_by_sum_def Let_def ro_def df1_def co_def)
  have ro_mset: "mset ro = mset (index df)"
    unfolding ro_def
    using sorts_desc_keys [OF s, of "sum_axis1 df"] map_fst_sum_axis1 [OF r] by simp
  have r1: "rect df1" unfolding df1_def by (rule rect_loc_rows [OF r])
  have c1: "columns df1 = columns df" unfolding df1_def by (rule columns_loc_rows)
  have dc1: "distinct (columns df1)" using dc c1 by simp
  have s0: "sum_axis0 df1 = sum_axis0 df"
    unfolding df1_def by (rule sum_axis0_loc_rows [OF r di ro_mset])
  have s1: "sum_axis1 df1 = srt (sum_axis1 df)"
    unfolding df1_def ro_def by (rule sum_axis1_loc_rows_sorted [OF r di s])
  have co_mset: "mset co = mset (columns df1)"
    unfolding co_def
    using sorts_desc_keys [OF s, of "sum_axis0 df1"] map_fst_sum_axis0 [of df1] by simp
  then have co_sub: "set co \<subseteq> set (columns df1)" by (metis set_mset_mset subset_refl)
  show rR: "rect (reorder_by_sum srt df)"
    unfolding R by (rule rect_select_cols [OF r1 dc1 co_sub])
  show a1: "sum_axis1 (reorder_by_sum srt df) = srt (sum_axis1 df)"
    unfolding R using sum_axis1_select_cols [OF r1 dc1 co_mset] s1 by simp
  show a0: "sum_axis0 (reorder_by_sum srt df) = srt (sum_axis0 df)"
    unfolding R co_def using sum_axis0_select_cols_sorted [OF r1 dc1 s] s0 by simp
  have "index (reorder_by_sum srt df) = map fst (srt (sum_axis1 df))"
    using map_fst_sum_axis1 [OF rR] a1 by simp
  then have "mset (index (reorder_by_sum srt df)) = mset (index df)"
    using ro_mset ro_def by simp
  then show "distinct (index (reorder_by_sum srt df))"
    using di by (metis mset_eq_imp_distinct_iff)
  have "columns (reorder_by_sum srt df) = map fst (srt (sum_axis0 df))"
    using map_fst_sum_axis0 [of "reorder_by_sum srt df"] a0 by simp
  then have "mset (columns (reorder_by_sum srt df)) = mset (columns df)"
    using sorts_desc_keys [OF s, of "sum_axis0 df"] map_fst_sum_axis0 [of df] by simp
  then show "distinct (columns (reorder_by_sum srt df))"
    using dc by (metis mset_eq_imp_distinct_iff)
qed

lemma reorder_sorted_fix:
  assumes r: "rect df" and di: "distinct (index df)" and dc: "distinct (columns df)"
    and fix1: "srt (sum_axis1 df) = sum_axis1 df"
    and fix0: "srt (sum_axis0 df) = sum_axis0 df"
  shows "reorder_by_sum srt df = df"
proof -
  have "map fst (srt (sum_axis1 df)) = index df"
    using fix1 map_fst_sum_axis1 [OF r] by simp
  moreover have "loc_rows (index df) df = df" by (rule loc_rows_self [OF r di])
  moreover have "map fst (srt (sum_axis0 df)) = columns df"
    using fix0 map_fst_sum_axis0 [of df] by simp
  moreover have "select_cols (columns df) df = df" by (rule select_cols_self [OF r dc])
  ultimately show ?thesis by (simp add: reorder_by_sum_def Let_def)
qed

lemma reorder_idem:
  assumes r: "rect df" and di: "distinct (index df)" and dc: "distinct (columns df)"
    and s: "sorts_desc srt" and st: "keeps_ties srt"
  shows "reorder_by_sum srt (reorder_by_sum srt df) = reorder_by_sum srt df"
proof (rule reorder_sorted_fix)
  note f = reorder_facts [OF r di dc s]
  show "rect (reorder_by_sum srt df)" by (rule f(1))
  show "distinct (index (reorder_by_sum srt df))" by (rule f(4))
  show "distinct (columns (reorder_by_sum srt df))" by (rule f(5))
  show "srt (sum_axis1 (reorder_by_sum srt df)) = sum_axis1 (reorder_by_sum srt df)"
    unfolding f(2) by (rule stable_sorted_fix [OF s st sorts_desc_sorted [OF s]])
  show "srt (sum_axis0 (reorder_by_sum srt df)) = sum_axis0 (reorder_by_sum srt df)"
    unfolding f(3) by (rule stable_sorted_fix [OF s st sorts_desc_sorted [OF s]])
qed

section \<open>Lemmas: the scanner\<close>

lemma map_of_dict_set: "map_of (dict_set k v d) = (map_of d)(k \<mapsto> v)"
  by (induction d) (auto simp: fun_eq_iff)

lemma keys_dict_set_old: "k \<in> fst ` set d \<Longrightarrow> map fst (dict_set k v d) = map fst d"
  by (induction d) force+

lemma keys_dict_set_new: "k \<notin> fst ` set d \<Longrightarrow> map fst (dict_set k v d) = map fst d @ [k]"
  by (induction d) auto

lemma keys_dict_set:
  "map fst (dict_set k v d) = (if k \<in> fst ` set d then map fst d else map fst d @ [k])"
  by (simp add: keys_dict_set_old keys_dict_set_new)

lemma distinct_dict_set: "distinct (map fst d) \<Longrightarrow> distinct (map fst (dict_set k v d))"
  by (simp add: keys_dict_set)

lemma keys_dict_append: "map fst (dict_append k x d) = map fst d"
  by (induction d) auto

lemma map_of_dict_append:
  "map_of (dict_append k x d) =
     (case map_of d k of None \<Rightarrow> map_of d | Some v \<Rightarrow> (map_of d)(k \<mapsto> v @ [x]))"
  by (induction d) (auto simp: fun_eq_iff split: option.splits)

lemma keys_record_calls: "map fst (record_calls r calls d) = map fst d"
  unfolding record_calls_def
  by (induction calls arbitrary: d) (simp_all add: keys_dict_append)

lemma map_of_record_calls:
  "map_of (record_calls r calls d) =
     (case map_of d r of
        None \<Rightarrow> map_of d
      | Some v \<Rightarrow> (map_of d)(r \<mapsto> v @ filter (\<lambda>c. c \<noteq> r) (map lower calls)))"
  unfolding record_calls_def
proof (induction calls arbitrary: d)
  case Nil
  then show ?case by (auto simp: fun_eq_iff split: option.splits)
next
  case (Cons c calls)
  show ?case
    by (auto simp: Cons map_of_dict_append fun_eq_iff split: option.splits)
qed

lemma scan_line_cases:
  "scan_line line (all, cur) =
     (case routine_start line of
        Some name \<Rightarrow> (record_calls (lower name) (call_pattern_findall line)
                        (dict_set (lower name) [] all), Some (lower name))
      | None \<Rightarrow> if routine_end line then (all, None)
                 else (case cur of
                         None \<Rightarrow> (all, None)
                       | Some r \<Rightarrow> (record_calls r (call_pattern_findall line) all, Some r)))"
  by (simp add: scan_line_def split: option.splits)

lemma no_self_dict_set: "no_self_calls d \<Longrightarrow> no_self_calls (dict_set k [] d)"
  unfolding no_self_calls_def by (induction d) auto

lemma no_self_dict_append: "no_self_calls d \<Longrightarrow> x \<noteq> k \<Longrightarrow> no_self_calls (dict_append k x d)"
  unfolding no_self_calls_def by (induction d) auto

lemma no_self_record_calls: "no_self_calls d \<Longrightarrow> no_self_calls (record_calls r calls d)"
  unfolding record_calls_def
  by (induction calls arbitrary: d) (simp_all add: no_self_dict_append)

lemma scan_line_inv: "scan_inv st \<Longrightarrow> scan_inv (scan_line line st)"
proof -
  assume inv: "scan_inv st"
  obtain all cur where st: "st = (all, cur)" by (cases st)
  have d: "distinct (map fst all)" and n: "no_self_calls all" using inv st by (simp_all add: scan_inv_def)
  show ?thesis
  proof (cases "routine_start line")
    case (Some name)
    have "lower name \<in> set (map fst (dict_set (lower name) [] all))"
      by (simp add: keys_dict_set)
    then have "lower name \<in> fst ` set (record_calls (lower name) (call_pattern_findall line)
        (dict_set (lower name) [] all))"
      using keys_record_calls [of "lower name" "call_pattern_findall line" "dict_set (lower name) [] all"]
      by (metis set_map)
    then show ?thesis
      using Some d n
      by (simp add: st scan_line_cases scan_inv_def keys_record_calls distinct_dict_set
          no_self_record_calls no_self_dict_set)
  next
    case None
    show ?thesis
    proof (cases cur)
      case None
      with \<open>routine_start line = None\<close> d n show ?thesis
        by (simp add: st scan_line_cases scan_inv_def)
    next
      case (Some r)
      then have "r \<in> fst ` set all" using inv st by (simp add: scan_inv_def)
      then have "r \<in> fst ` set (record_calls r (call_pattern_findall line) all)"
        using keys_record_calls [of r "call_pattern_findall line" all] by (metis set_map)
      with Some \<open>routine_start line = None\<close> d n show ?thesis
        by (simp add: st scan_line_cases scan_inv_def keys_record_calls no_self_record_calls)
    qed
  qed
qed

lemma scan_line_current_key:
  assumes "case cur of None \<Rightarrow> True | Some r \<Rightarrow> r \<in> fst ` set all"
    and "scan_line line (all, cur) = (all', Some r')"
  shows "r' \<in> fst ` set all'"
proof (cases "routine_start line")
  case (Some name)
  have "lower name \<in> set (map fst (dict_set (lower name) [] all))"
    by (simp add: keys_dict_set)
  then have "lower name \<in> set (map fst (record_calls (lower name) (call_pattern_findall line)
        (dict_set (lower name) [] all)))"
    by (simp only: keys_record_calls)
  with Some assms(2) show ?thesis by (auto simp: scan_line_cases)
next
  case None
  show ?thesis
  proof (cases cur)
    case None
    with \<open>routine_start line = None\<close> assms(2) show ?thesis
      by (simp add: scan_line_cases split: if_splits)
  next
    case (Some r)
    then have "r \<in> set (map fst all)" using assms(1) by simp
    then have "r \<in> set (map fst (record_calls r (call_pattern_findall line) all))"
      by (simp only: keys_record_calls)
    with Some \<open>routine_start line = None\<close> assms(2) show ?thesis
      by (auto simp: scan_line_cases split: if_splits)
  qed
qed

lemma fold_scan_line_inv: "scan_inv st \<Longrightarrow> scan_inv (fold scan_line lines st)"
  by (induction lines arbitrary: st) (simp_all add: scan_line_inv)

lemma scan_lines_inv:
  assumes "distinct (map fst all)" and "no_self_calls all"
  shows "distinct (map fst (scan_lines lines all)) \<and> no_self_calls (scan_lines lines all)"
proof -
  have "scan_inv (all, None)" using assms by (simp add: scan_inv_def)
  then have "scan_inv (fold scan_line lines (all, None))" by (rule fold_scan_line_inv)
  then show ?thesis by (simp add: scan_inv_def scan_lines_def)
qed

lemma scan_files_inv:
  "distinct (map fst all) \<Longrightarrow> no_self_calls all \<Longrightarrow> scan_files entries all = Inr all' \<Longrightarrow>
   distinct (map fst all') \<and> no_self_calls all'"
proof (induction entries arbitrary: all)
  case Nil
  then show ?case by simp
next
  case (Cons e entries)
  obtain filename content where e: "e = (filename, content)" by (cases e)
  show ?case
  proof (cases "endswith filename ''.f90''")
    case True
    then obtain src where c: "content = Some src"
      and rest: "scan_files entries (scan_content src all) = Inr all'"
      using Cons.prems(3) e by (auto split: option.splits)
    have "distinct (map fst (scan_content src all)) \<and> no_self_calls (scan_content src all)"
      unfolding scan_content_def by (rule scan_lines_inv [OF Cons.prems(1,2)])
    then show ?thesis using Cons.IH rest by blast
  next
    case False
    then have "scan_files entries all = Inr all'" using Cons.prems(3) e by simp
    then show ?thesis using Cons.IH Cons.prems(1,2) by blast
  qed
qed

lemma scan_line_routine_start:
  assumes "routine_start line = Some name"
  shows "map_of (fst (scan_line line (all, cur))) =
           (map_of all)(lower name \<mapsto>
              filter (\<lambda>c. c \<noteq> lower name) (map lower (call_pattern_findall line)))"
    and "snd (scan_line line (all, cur)) = Some (lower name)"
    and "map fst (fst (scan_line line (all, cur))) =
           (if lower name \<in> fst ` set all then map fst all else map fst all @ [lower name])"
  using assms
  by (simp_all add: scan_line_cases map_of_record_calls map_of_dict_set keys_record_calls keys_dict_set)

section \<open>Lemmas: the assembled matrix\<close>

lemma map_of_zip_map_zip:
  "map_of (zip xs (map (\<lambda>(l, y). g l y) (zip xs ys))) k = map_option (g k) (map_of (zip xs ys) k)"
proof (induction xs arbitrary: ys)
  case Nil
  then show ?case by simp
next
  case (Cons x xs)
  then show ?case by (cases ys) auto
qed

lemma map_of_zip_replicate:
  "map_of (zip xs (replicate (length xs) y)) k = (if k \<in> set xs then Some y else None)"
  by (induction xs) auto

lemma index_at_set: "index (at_set r c v df) = index df"
  and columns_at_set: "columns (at_set r c v df) = columns df"
  by (simp_all add: at_set_def)

lemma at_get_at_set:
  "at_get (at_set r c v df) r' c' =
     (if r' = r \<and> c' = c then map_option (\<lambda>_. v) (at_get df r' c') else at_get df r' c')"
proof -
  define upd where "upd = (\<lambda>row. map (\<lambda>(k, x). if k = c then v else x) (zip (columns df) row))"
  define g where "g = (\<lambda>l row. if l = r then upd row else row)"
  have v: "vals (at_set r c v df) = map (\<lambda>(l, row). g l row) (zip (index df) (vals df))"
    unfolding g_def upd_def at_set_def by simp
  have rows: "map_of (zip (index df) (vals (at_set r c v df))) r'
      = map_option (g r') (map_of (zip (index df) (vals df)) r')"
    unfolding v by (rule map_of_zip_map_zip)
  have cell: "map_of (zip (columns df) (upd row)) c'
      = map_option (\<lambda>x. if c' = c then v else x) (map_of (zip (columns df) row) c')" for row
    unfolding upd_def by (rule map_of_zip_map_zip)
  have L: "at_get (at_set r c v df) r' c' =
      (case map_of (zip (index df) (vals df)) r' of
         None \<Rightarrow> None
       | Some row \<Rightarrow> map_of (zip (columns df) (g r' row)) c')"
    unfolding at_get_def index_at_set columns_at_set rows
    by (cases "map_of (zip (index df) (vals df)) r'") simp_all
  show ?thesis
  proof (cases "map_of (zip (index df) (vals df)) r'")
    case None
    then show ?thesis unfolding L by (auto simp: at_get_def)
  next
    case (Some row)
    show ?thesis
    proof (cases "r' = r")
      case True
      have "map_of (zip (columns df) (g r' row)) c'
          = map_option (\<lambda>x. if c' = c then v else x) (map_of (zip (columns df) row) c')"
        using True cell [of row] by (simp add: g_def)
      then show ?thesis unfolding L using Some True
        by (cases "map_of (zip (columns df) row) c'") (auto simp: at_get_def)
    next
      case False
      then have "g r' row = row" by (simp add: g_def)
      then show ?thesis unfolding L using Some False by (auto simp: at_get_def)
    qed
  qed
qed

lemma rect_at_set: "rect df \<Longrightarrow> rect (at_set r c v df)"
  by (auto simp: rect_def at_set_def list_all_iff dest: set_zip_rightD)

lemma list_all_update_row:
  "list_all P row \<Longrightarrow> P v \<Longrightarrow>
   list_all P (map (\<lambda>(k, x). if k = c then v else x) (zip cols row))"
proof (induction cols arbitrary: row)
  case Nil
  then show ?case by simp
next
  case (Cons k cols)
  then show ?case by (cases row) auto
qed

lemma list_all_update_rows:
  "list_all Q rows \<Longrightarrow> (\<And>row. Q row \<Longrightarrow> Q (f row)) \<Longrightarrow>
   list_all Q (map (\<lambda>(l, row). if l = r then f row else row) (zip idx rows))"
proof (induction idx arbitrary: rows)
  case Nil
  then show ?case by simp
next
  case (Cons l idx)
  then show ?case by (cases rows) auto
qed

lemma cells01_at_set:
  assumes "list_all (list_all (\<lambda>x. x = 0 \<or> x = 1)) (vals df)"
  shows "list_all (list_all (\<lambda>x. x = 0 \<or> x = 1)) (vals (at_set r c 1 df))"
  unfolding at_set_def using assms
  by (simp add: list_all_update_rows list_all_update_row)

lemma fill_callees_shape:
  "index (fill_callees U caller callees m) = index m \<and>
   columns (fill_callees U caller callees m) = columns m \<and>
   (rect m \<longrightarrow> rect (fill_callees U caller callees m)) \<and>
   (list_all (list_all (\<lambda>x. x = 0 \<or> x = 1)) (vals m) \<longrightarrow>
      list_all (list_all (\<lambda>x. x = 0 \<or> x = 1)) (vals (fill_callees U caller callees m)))"
  unfolding fill_callees_def
  by (induction callees arbitrary: m)
     (simp_all add: index_at_set columns_at_set rect_at_set cells01_at_set)

lemma at_get_fill_callees:
  "at_get (fill_callees U caller callees m) r c =
     (if c = caller \<and> r \<in> set callees \<and> r \<in> set U
      then map_option (\<lambda>_. 1) (at_get m r c) else at_get m r c)"
  unfolding fill_callees_def
proof (induction callees arbitrary: m)
  case Nil
  then show ?case by simp
next
  case (Cons x callees)
  show ?case
    by (cases "at_get m r c") (auto simp: Cons at_get_at_set)
qed

lemma fill_matrix_fold:
  "fill_matrix all U m = fold (\<lambda>(caller, callees). fill_callees U caller callees) all m"
  by (simp add: fill_matrix_def)

lemma fill_matrix_shape:
  "index (fill_matrix all U m) = index m \<and>
   columns (fill_matrix all U m) = columns m \<and>
   (rect m \<longrightarrow> rect (fill_matrix all U m)) \<and>
   (list_all (list_all (\<lambda>x. x = 0 \<or> x = 1)) (vals m) \<longrightarrow>
      list_all (list_all (\<lambda>x. x = 0 \<or> x = 1)) (vals (fill_matrix all U m)))"
  unfolding fill_matrix_fold
proof (induction all arbitrary: m)
  case Nil
  then show ?case by simp
next
  case (Cons p all)
  obtain caller callees where p: "p = (caller, callees)" by (cases p)
  show ?case using Cons [of "fill_callees U caller callees m"] fill_callees_shape [of U caller callees m]
    by (simp add: p)
qed

lemma at_get_fill_matrix:
  "at_get (fill_matrix all U m) r c =
     (if (\<exists>callees. (c, callees) \<in> set all \<and> r \<in> set callees) \<and> r \<in> set U
      then map_option (\<lambda>_. 1) (at_get m r c) else at_get m r c)"
  unfolding fill_matrix_fold
proof (induction all arbitrary: m)
  case Nil
  then show ?case by simp
next
  case (Cons p all)
  obtain caller callees where p: "p = (caller, callees)" by (cases p)
  show ?case
    by (cases "at_get m r c") (auto simp: p Cons at_get_fill_callees)
qed

lemma at_get_DataFrame0:
  "at_get (DataFrame0 rows cols) r c = (if r \<in> set rows \<and> c \<in> set cols then Some 0 else None)"
  by (simp add: at_get_def DataFrame0_def map_of_zip_replicate)

lemma rect_DataFrame0: "rect (DataFrame0 rows cols)"
  by (simp add: rect_def DataFrame0_def list_all_iff)

lemma cells01_DataFrame0: "list_all (list_all (\<lambda>x. x = 0 \<or> x = 1)) (vals (DataFrame0 rows cols))"
  by (simp add: DataFrame0_def list_all_iff)

lemma index_DataFrame0: "index (DataFrame0 rows cols) = rows"
  and columns_DataFrame0: "columns (DataFrame0 rows cols) = cols"
  by (simp_all add: DataFrame0_def)

lemma assemble_shape:
  "index (assemble all) = sort (map fst all)"
  "columns (assemble all) = sort (map fst all)"
  "rect (assemble all)"
  "list_all (list_all (\<lambda>x. x = 0 \<or> x = 1)) (vals (assemble all))"
  using fill_matrix_shape [of all "sort (map fst all)" "DataFrame0 (sort (map fst all)) (sort (map fst all))"]
    rect_DataFrame0 cells01_DataFrame0
  by (simp_all add: assemble_def Let_def index_DataFrame0 columns_DataFrame0)

lemma at_get_assemble:
  "at_get (assemble all) r c =
     (if r \<in> fst ` set all \<and> c \<in> fst ` set all
      then Some (if \<exists>callees. (c, callees) \<in> set all \<and> r \<in> set callees then 1 else 0)
      else None)"
  by (auto simp: assemble_def Let_def at_get_fill_matrix at_get_DataFrame0)

lemma square01_assemble: "distinct (map fst all) \<Longrightarrow> square01 (assemble all)"
  by (simp add: square01_def assemble_shape)

lemma sort_keys_sorted_list_of_set:
  "distinct (map fst all) \<Longrightarrow> sort (map fst all) = sorted_list_of_set (fst ` set all)"
  by (metis distinct_remdups_id set_map sorted_list_of_set_sort_remdups)

text \<open>Every matrix the generator returns is a square 0/1 matrix with distinct labels.\<close>

lemma generate_fortran_matrix_square01:
  assumes "generate_fortran_matrix directory = Inr M"
  shows "square01 M"
proof -
  from assms obtain entries all_routines where
    s: "scan_files entries [] = Inr all_routines" and M: "M = assemble all_routines"
    by (auto simp: generate_fortran_matrix_def split: fs_node.splits sum.splits)
  have "distinct (map fst ([] :: routines))" and "no_self_calls []"
    by (simp_all add: no_self_calls_def)
  then have "distinct (map fst all_routines) \<and> no_self_calls all_routines"
    using s by (rule scan_files_inv)
  then show ?thesis unfolding M by (simp add: square01_assemble)
qed

section \<open>Lemmas: calls that are kept\<close>

lemma snd_scan_line: "snd (scan_line line (all, cur)) = next_routine line cur"
  by (simp add: scan_line_cases next_routine_def split: option.splits)

lemma scan_line_record:
  assumes "scan_inv (all, cur)" and "next_routine line cur = Some a"
    and "b \<in> set (map lower (call_pattern_findall line))" and "b \<noteq> a"
  shows "\<exists>cs. map_of (fst (scan_line line (all, cur))) a = Some cs \<and> b \<in> set cs"
proof (cases "routine_start line")
  case (Some name)
  then have a: "lower name = a" using assms(2) by (simp add: next_routine_def)
  have "map_of (fst (scan_line line (all, cur))) a
      = Some (filter (\<lambda>c. c \<noteq> a) (map lower (call_pattern_findall line)))"
    using scan_line_routine_start(1) [OF Some, of all cur] a by simp
  moreover have "b \<in> set (filter (\<lambda>c. c \<noteq> a) (map lower (call_pattern_findall line)))"
    using assms(3,4) by simp
  ultimately show ?thesis by blast
next
  case None
  then have c: "cur = Some a" and e: "\<not> routine_end line"
    using assms(2) by (simp_all add: next_routine_def split: if_splits)
  then have "a \<in> fst ` set all" using assms(1) by (simp add: scan_inv_def)
  then obtain v where v: "map_of all a = Some v"
    by (metis domD dom_map_of_conv_image_fst)
  have "map_of (fst (scan_line line (all, cur))) a
      = Some (v @ filter (\<lambda>c. c \<noteq> a) (map lower (call_pattern_findall line)))"
    using None c e v by (simp add: scan_line_cases map_of_record_calls)
  moreover have "b \<in> set (v @ filter (\<lambda>c. c \<noteq> a) (map lower (call_pattern_findall line)))"
    using assms(3,4) by simp
  ultimately show ?thesis by blast
qed

lemma scan_line_persist:
  assumes "\<not> declares a line" and "map_of all a = Some cs"
  shows "\<exists>cs'. map_of (fst (scan_line line (all, cur))) a = Some (cs @ cs')"
proof (cases "routine_start line")
  case (Some name)
  then have "lower name \<noteq> a" using assms(1) by (simp add: declares_def)
  then have "map_of (fst (scan_line line (all, cur))) a = Some cs"
    using scan_line_routine_start(1) [OF Some, of all cur] assms(2) by simp
  then show ?thesis by simp
next
  case None
  show ?thesis
  proof (cases "routine_end line \<or> cur = None")
    case True
    then have "fst (scan_line line (all, cur)) = all"
      using None by (auto simp: scan_line_cases)
    then show ?thesis using assms(2) by simp
  next
    case False
    then obtain r where r: "cur = Some r" and e: "\<not> routine_end line" by auto
    show ?thesis
      using None r e assms(2)
      by (cases "map_of all r") (auto simp: scan_line_cases map_of_record_calls)
  qed
qed

lemma fold_scan_line_persist:
  "list_all (\<lambda>l. \<not> declares a l) ls \<Longrightarrow> map_of all a = Some cs \<Longrightarrow>
   \<exists>cs'. map_of (fst (fold scan_line ls (all, cur))) a = Some (cs @ cs')"
proof (induction ls arbitrary: all cur cs)
  case Nil
  then show ?case by simp
next
  case (Cons l ls)
  obtain all1 cur1 where st: "scan_line l (all, cur) = (all1, cur1)" by (cases "scan_line l (all, cur)")
  from Cons.prems have nd: "\<not> declares a l" and rest: "list_all (\<lambda>l. \<not> declares a l) ls" by simp_all
  from scan_line_persist [OF nd Cons.prems(2), of cur] st
  obtain c1 where c1: "map_of all1 a = Some (cs @ c1)" by auto
  from Cons.IH [OF rest c1, of cur1] obtain c2 where
    "map_of (fst (fold scan_line ls (all1, cur1))) a = Some ((cs @ c1) @ c2)" by blast
  then show ?case using st by auto
qed

lemma fold_scan_line_kept:
  "scan_inv (all, cur) \<Longrightarrow> call_kept_from cur ls a b \<Longrightarrow>
   \<exists>cs. map_of (fst (fold scan_line ls (all, cur))) a = Some cs \<and> b \<in> set cs"
proof (induction ls arbitrary: all cur)
  case Nil
  then show ?case by simp
next
  case (Cons l ls)
  obtain all1 cur1 where st: "scan_line l (all, cur) = (all1, cur1)" by (cases "scan_line l (all, cur)")
  have cur1: "cur1 = next_routine l cur" using snd_scan_line [of l all cur] st by simp
  have inv1: "scan_inv (all1, cur1)" using scan_line_inv [OF Cons.prems(1), of l] st by simp
  from Cons.prems(2) consider
    (here) "next_routine l cur = Some a" "b \<noteq> a"
      "b \<in> set (map lower (call_pattern_findall l))" "list_all (\<lambda>l. \<not> declares a l) ls"
    | (later) "call_kept_from (next_routine l cur) ls a b" by auto
  then show ?case
  proof cases
    case here
    from scan_line_record [OF Cons.prems(1) here(1,3,2)] st
    obtain cs where cs: "map_of all1 a = Some cs" "b \<in> set cs" by auto
    from fold_scan_line_persist [OF here(4) cs(1), of cur1] obtain cs' where
      "map_of (fst (fold scan_line ls (all1, cur1))) a = Some (cs @ cs')" by blast
    then show ?thesis using st cs(2) by auto
  next
    case later
    then show ?thesis using Cons.IH [OF inv1] cur1 st by auto
  qed
qed

lemma scan_content_lines: "scan_content content all = scan_lines (logical_lines content) all"
  by (simp add: scan_content_def logical_lines_def)

lemma scan_files_persist:
  "scan_files entries all = Inr all' \<Longrightarrow> not_declared_in entries a \<Longrightarrow> map_of all a = Some cs \<Longrightarrow>
   \<exists>cs'. map_of all' a = Some (cs @ cs')"
proof (induction entries arbitrary: all cs)
  case Nil
  then show ?case by simp
next
  case (Cons e entries)
  obtain filename content where e: "e = (filename, content)" by (cases e)
  have rest: "not_declared_in entries a" using Cons.prems(2) e by simp
  show ?case
  proof (cases "endswith filename ''.f90''")
    case True
    then obtain src where c: "content = Some src"
      and s: "scan_files entries (scan_content src all) = Inr all'"
      using Cons.prems(1) e by (auto split: option.splits)
    have "list_all (\<lambda>l. \<not> declares a l) (logical_lines src)"
      using Cons.prems(2) e True c by simp
    from fold_scan_line_persist [OF this Cons.prems(3), of None]
    obtain c1 where "map_of (scan_content src all) a = Some (cs @ c1)"
      by (auto simp: scan_content_lines scan_lines_def)
    from Cons.IH [OF s rest this] show ?thesis by auto
  next
    case False
    then have "scan_files entries all = Inr all'" using Cons.prems(1) e by simp
    from Cons.IH [OF this rest Cons.prems(3)] show ?thesis .
  qed
qed

lemma scan_files_kept:
  "scan_files entries all = Inr all' \<Longrightarrow> distinct (map fst all) \<Longrightarrow> no_self_calls all \<Longrightarrow>
   call_kept entries a b \<Longrightarrow> \<exists>cs. map_of all' a = Some cs \<and> b \<in> set cs"
proof (induction entries arbitrary: all)
  case Nil
  then show ?case by simp
next
  case (Cons e entries)
  obtain filename content where e: "e = (filename, content)" by (cases e)
  show ?case
  proof (cases "endswith filename ''.f90''")
    case True
    then obtain src where c: "content = Some src"
      and s: "scan_files entries (scan_content src all) = Inr all'"
      using Cons.prems(1) e by (auto split: option.splits)
    have inv1: "distinct (map fst (scan_content src all)) \<and> no_self_calls (scan_content src all)"
      unfolding scan_content_def by (rule scan_lines_inv [OF Cons.prems(2,3)])
    from Cons.prems(4) e c consider
      (here) "call_kept_from None (logical_lines src) a b" "not_declared_in entries a"
      | (later) "call_kept entries a b" by auto
    then show ?thesis
    proof cases
      case here
      have "scan_inv (all, None)" using Cons.prems(2,3) by (simp add: scan_inv_def)
      from fold_scan_line_kept [OF this here(1)]
      obtain c1 where c1: "map_of (scan_content src all) a = Some c1" "b \<in> set c1"
        by (auto simp: scan_content_lines scan_lines_def)
      from scan_files_persist [OF s here(2) c1(1)] c1(2) show ?thesis by auto
    next
      case later
      from Cons.IH [OF s _ _ later] inv1 show ?thesis by blast
    qed
  next
    case False
    then have s: "scan_files entries all = Inr all'" using Cons.prems(1) e by simp
    have "call_kept entries a b" using Cons.prems(4) e False by simp
    from Cons.IH [OF s Cons.prems(2,3) this] show ?thesis .
  qed
qed

section \<open>Claims about the connectivity reordering\<close>

lemma square01_example_matrix: "square01 example_matrix"
  by (simp add: square01_def rect_def example_matrix_def)

lemma square01_tied_matrix: "square01 tied_matrix"
  by (simp add: square01_def rect_def tied_matrix_def)

text \<open>
  Claim C4. For every square 0/1 matrix, the two-phase reordering of \<open>reorder_by_sum\<close>
  (permute the rows by descending row sum, then take the column sums of the row-permuted
  matrix and permute the columns) gives the same frame as taking both the row sums and the
  column sums from the original matrix and applying the two permutations independently.
  This holds for whatever sort the library provides, as long as it returns a permutation
  of the series it is given.
\<close>

theorem reorder_two_phase_equals_independent:
  assumes "square01 M" and "sorts_desc sort_values_desc"
  shows "reorder_by_sum sort_values_desc M = reorder_independent sort_values_desc M"
proof -
  have "rect M" and "distinct (index M)" using assms(1) by (simp_all add: square01_def)
  then show ?thesis using assms(2) by (rule reorder_two_phase_eq)
qed

theorem reorder_two_phase_equals_independent_witness:
  "square01 example_matrix \<and> sorts_desc stable_desc \<and>
   reorder_independent stable_desc example_matrix =
     \<lparr>index = [''beta'', ''alpha''], columns = [''alpha'', ''beta''], vals = [[1, 0], [0, 0]]\<rparr> \<and>
   reorder_by_sum stable_desc example_matrix = reorder_independent stable_desc example_matrix"
proof -
  have "reorder_independent stable_desc example_matrix =
     \<lparr>index = [''beta'', ''alpha''], columns = [''alpha'', ''beta''], vals = [[1, 0], [0, 0]]\<rparr>"
    by (simp add: reorder_independent_def stable_desc_def example_matrix_def sum_axis1_def
        sum_axis0_def loc_rows_def select_cols_def pick_def Let_def)
  then show ?thesis
    using reorder_two_phase_equals_independent [OF square01_example_matrix sorts_desc_stable_desc]
      square01_example_matrix sorts_desc_stable_desc
    by simp
qed

lemma square01_fan_in_matrix: "square01 fan_in_matrix"
  by (simp add: square01_def rect_def fan_in_matrix_def)

text \<open>
  Claim C1, as amended. \<open>reorder_by_sum\<close> calls \<open>sort_values(ascending=False)\<close> with the
  library's default sort, which is not promised to be stable. What the code guarantees, for
  every matrix whose row labels are pairwise distinct and whose column labels are pairwise
  distinct, and every sort that meets the library's contract: the row sums of the result are
  the sorted row sums of the input, hence non-increasing, and the row labels are a
  permutation of the input's; the same for the columns. Labels with equal sums keep their
  input order when the sort in use is stable. (The result is a function of the matrix and
  of the sort, so the same input always gives the same output.)
\<close>

theorem reorder_by_sum_orders_by_sums:
  assumes "rect M" and "distinct (index M)" and "distinct (columns M)"
    and "sorts_desc sort_values_desc"
  shows "sum_axis1 (reorder_by_sum sort_values_desc M) = sort_values_desc (sum_axis1 M) \<and>
         sum_axis0 (reorder_by_sum sort_values_desc M) = sort_values_desc (sum_axis0 M) \<and>
         sorted_wrt (\<lambda>p q. snd q \<le> snd p) (sum_axis1 (reorder_by_sum sort_values_desc M)) \<and>
         sorted_wrt (\<lambda>p q. snd q \<le> snd p) (sum_axis0 (reorder_by_sum sort_values_desc M)) \<and>
         mset (index (reorder_by_sum sort_values_desc M)) = mset (index M) \<and>
         mset (columns (reorder_by_sum sort_values_desc M)) = mset (columns M) \<and>
         (keeps_ties sort_values_desc \<longrightarrow>
            (\<forall>v. filter (\<lambda>p. snd p = v) (sum_axis1 (reorder_by_sum sort_values_desc M))
                 = filter (\<lambda>p. snd p = v) (sum_axis1 M)) \<and>
            (\<forall>v. filter (\<lambda>p. snd p = v) (sum_axis0 (reorder_by_sum sort_values_desc M))
                 = filter (\<lambda>p. snd p = v) (sum_axis0 M)))"
proof -
  let ?R = "reorder_by_sum sort_values_desc M"
  note r = assms(1) and s = assms(4)
  note f = reorder_facts [OF assms]
  have rows: "sum_axis1 ?R = sort_values_desc (sum_axis1 M)" by (rule f(2))
  have cols: "sum_axis0 ?R = sort_values_desc (sum_axis0 M)" by (rule f(3))
  have srows: "sorted_wrt (\<lambda>p q. snd q \<le> snd p) (sum_axis1 ?R)"
    unfolding rows by (rule sorts_desc_sorted [OF s])
  have scols: "sorted_wrt (\<lambda>p q. snd q \<le> snd p) (sum_axis0 ?R)"
    unfolding cols by (rule sorts_desc_sorted [OF s])
  have "mset (map fst (sum_axis1 ?R)) = mset (map fst (sum_axis1 M))"
    unfolding rows by (rule sorts_desc_keys [OF s])
  then have prow: "mset (index ?R) = mset (index M)"
    by (simp only: map_fst_sum_axis1 [OF f(1)] map_fst_sum_axis1 [OF r])
  have "mset (map fst (sum_axis0 ?R)) = mset (map fst (sum_axis0 M))"
    unfolding cols by (rule sorts_desc_keys [OF s])
  then have pcol: "mset (columns ?R) = mset (columns M)"
    by (simp only: map_fst_sum_axis0)
  have st: "keeps_ties sort_values_desc \<longrightarrow>
      (\<forall>v. filter (\<lambda>p. snd p = v) (sum_axis1 ?R) = filter (\<lambda>p. snd p = v) (sum_axis1 M)) \<and>
      (\<forall>v. filter (\<lambda>p. snd p = v) (sum_axis0 ?R) = filter (\<lambda>p. snd p = v) (sum_axis0 M))"
    unfolding rows cols by (simp add: keeps_ties_def)
  from rows cols srows scols prow pcol st show ?thesis by blast
qed

theorem reorder_by_sum_orders_by_sums_witness:
  "rect fan_in_matrix \<and> distinct (index fan_in_matrix) \<and> distinct (columns fan_in_matrix) \<and>
   sorts_desc stable_desc \<and> keeps_ties stable_desc \<and>
   sum_axis1 fan_in_matrix = [(''a'', 0), (''b'', 0), (''c'', 2)] \<and>
   sum_axis1 (reorder_by_sum stable_desc fan_in_matrix) = [(''c'', 2), (''a'', 0), (''b'', 0)] \<and>
   filter (\<lambda>p. snd p = 0) (sum_axis1 (reorder_by_sum stable_desc fan_in_matrix))
     = filter (\<lambda>p. snd p = 0) (sum_axis1 fan_in_matrix) \<and>
   sum_axis0 (reorder_by_sum stable_desc fan_in_matrix) = [(''a'', 1), (''b'', 1), (''c'', 0)]"
proof -
  have h: "rect fan_in_matrix" "distinct (index fan_in_matrix)" "distinct (columns fan_in_matrix)"
    using square01_fan_in_matrix by (simp_all add: square01_def)
  note t = reorder_by_sum_orders_by_sums [OF h sorts_desc_stable_desc]
  have s1: "sum_axis1 fan_in_matrix = [(''a'', 0), (''b'', 0), (''c'', 2)]"
    by (simp add: sum_axis1_def fan_in_matrix_def)
  have s0: "sum_axis0 fan_in_matrix = [(''a'', 1), (''b'', 1), (''c'', 0)]"
    by (simp add: sum_axis0_def fan_in_matrix_def upt_rec [of 0] upt_rec [of 1] upt_rec [of 2])
  have r1: "sum_axis1 (reorder_by_sum stable_desc fan_in_matrix) = [(''c'', 2), (''a'', 0), (''b'', 0)]"
    using t s1 by (simp add: stable_desc_def)
  have r0: "sum_axis0 (reorder_by_sum stable_desc fan_in_matrix) = [(''a'', 1), (''b'', 1), (''c'', 0)]"
    using t s0 by (simp add: stable_desc_def)
  have "filter (\<lambda>p. snd p = 0) (sum_axis1 (reorder_by_sum stable_desc fan_in_matrix))
     = filter (\<lambda>p. snd p = 0) (sum_axis1 fan_in_matrix)"
    using t keeps_ties_stable_desc by blast
  with s1 r1 r0 h sorts_desc_stable_desc keeps_ties_stable_desc
  show ?thesis by blast
qed

text \<open>
  Claim C1 as stated fails for a sort that meets the library's contract but is not stable:
  with \<open>reversed_asc\<close> the two routines of \<open>tied_matrix\<close>, whose row sums are both 0,
  come out in the opposite order.
\<close>

theorem reorder_by_sum_stable_counterexample:
  "sorts_desc reversed_asc \<and>
   sum_axis1 tied_matrix = [(''a'', 0), (''b'', 0)] \<and>
   sum_axis1 (reorder_by_sum reversed_asc tied_matrix) = [(''b'', 0), (''a'', 0)] \<and>
   index (reorder_by_sum reversed_asc tied_matrix) \<noteq> index tied_matrix"
  using sorts_desc_reversed_asc
  by (simp add: tied_matrix_def reorder_by_sum_def reversed_asc_def sum_axis1_def sum_axis0_def
      loc_rows_def select_cols_def pick_def Let_def)

text \<open>
  Claim C7, as amended. Reordering an already reordered square 0/1 matrix returns it
  unchanged, rows and columns, whenever the library sort in use is stable.
\<close>

theorem reorder_by_sum_idempotent_if_stable:
  assumes "square01 M" and "sorts_desc sort_values_desc" and "keeps_ties sort_values_desc"
  shows "reorder_by_sum sort_values_desc (reorder_by_sum sort_values_desc M)
       = reorder_by_sum sort_values_desc M"
proof -
  have "rect M" and "distinct (index M)" and "distinct (columns M)"
    using assms(1) by (simp_all add: square01_def)
  then show ?thesis using assms(2,3) by (rule reorder_idem)
qed

theorem reorder_by_sum_idempotent_if_stable_witness:
  "square01 fan_in_matrix \<and> sorts_desc stable_desc \<and> keeps_ties stable_desc \<and>
   reorder_by_sum stable_desc fan_in_matrix =
     \<lparr>index = [''c'', ''a'', ''b''], columns = [''a'', ''b'', ''c''],
      vals = [[1, 1, 0], [0, 0, 0], [0, 0, 0]]\<rparr> \<and>
   reorder_by_sum stable_desc (reorder_by_sum stable_desc fan_in_matrix)
     = reorder_by_sum stable_desc fan_in_matrix"
proof -
  have "reorder_by_sum stable_desc fan_in_matrix =
     \<lparr>index = [''c'', ''a'', ''b''], columns = [''a'', ''b'', ''c''],
      vals = [[1, 1, 0], [0, 0, 0], [0, 0, 0]]\<rparr>"
    by (simp add: fan_in_matrix_def reorder_by_sum_def stable_desc_def sum_axis1_def
        sum_axis0_def loc_rows_def select_cols_def pick_def Let_def
        upt_rec [of 0] upt_rec [of 1] upt_rec [of 2])
  then show ?thesis
    using reorder_by_sum_idempotent_if_stable
      [OF square01_fan_in_matrix sorts_desc_stable_desc keeps_ties_stable_desc]
      square01_fan_in_matrix sorts_desc_stable_desc keeps_ties_stable_desc
    by simp
qed

text \<open>
  Claim C7 as stated fails for the same non-stable sort: reordering \<open>tied_matrix\<close> swaps
  the two tied routines, and reordering the result swaps them back.
\<close>

theorem reorder_by_sum_idempotent_counterexample:
  "reorder_by_sum reversed_asc tied_matrix =
     \<lparr>index = [''b'', ''a''], columns = [''b'', ''a''], vals = [[0, 0], [0, 0]]\<rparr> \<and>
   reorder_by_sum reversed_asc (reorder_by_sum reversed_asc tied_matrix) =
     \<lparr>index = [''a'', ''b''], columns = [''a'', ''b''], vals = [[0, 0], [0, 0]]\<rparr> \<and>
   reorder_by_sum reversed_asc (reorder_by_sum reversed_asc tied_matrix)
     \<noteq> reorder_by_sum reversed_asc tied_matrix"
proof -
  have a: "reorder_by_sum reversed_asc tied_matrix =
     \<lparr>index = [''b'', ''a''], columns = [''b'', ''a''], vals = [[0, 0], [0, 0]]\<rparr>"
    by (simp add: tied_matrix_def reorder_by_sum_def reversed_asc_def sum_axis1_def sum_axis0_def
        loc_rows_def select_cols_def pick_def Let_def)
  have b: "reorder_by_sum reversed_asc
       \<lparr>index = [''b'', ''a''], columns = [''b'', ''a''], vals = [[0, 0], [0, 0]]\<rparr> =
     \<lparr>index = [''a'', ''b''], columns = [''a'', ''b''], vals = [[0, 0], [0, 0]]\<rparr>"
    by (simp add: reorder_by_sum_def reversed_asc_def sum_axis1_def sum_axis0_def
        loc_rows_def select_cols_def pick_def Let_def)
  show ?thesis unfolding a b by simp
qed

section \<open>Claims about the scanner and the assembled matrix\<close>

text \<open>
  Claim C2: inside a routine, the scanner should record every identifier followed by an
  opening parenthesis and also every identifier preceded by \<open>call\<close> and white space, with
  no parenthesis needed in the second case. The pattern asks for the parenthesis in both
  alternatives: a \<open>call\<close> statement without an argument list records nothing, while the same
  statement with an empty argument list is recorded. (An identifier that starts the line is
  missed as well, since the look-behind needs a character before it.)
\<close>

theorem bare_call_not_recorded:
  "call_pattern_findall ''  call foo'' = [] \<and>
   call_pattern_findall ''  call foo()'' = [''foo''] \<and>
   call_pattern_findall ''foo(1) = bar(2)'' = [''bar''] \<and>
   scan_lines bare_call_lines [] = [(''bar'', [])]"
  by code_simp

text \<open>
  Claim C3. For every mapping from routine to raw callees (a dict: the keys are pairwise
  distinct), the assembled matrix is a square 0/1 matrix whose row labels and column labels
  are both the set of keys in ascending order; there is a cell exactly for every pair of
  keys, and the cell in row \<open>callee\<close>, column \<open>caller\<close> is 1 if \<open>callee\<close> occurs in the
  raw callees of \<open>caller\<close> and 0 otherwise. A callee that is not a key has no row and no
  column.
\<close>

theorem assemble_adjacency_matrix:
  assumes "distinct (map fst all_routines)"
  shows "square01 (assemble all_routines) \<and>
         index (assemble all_routines) = sorted_list_of_set (fst ` set all_routines) \<and>
         columns (assemble all_routines) = sorted_list_of_set (fst ` set all_routines) \<and>
         (\<forall>callee caller.
            at_get (assemble all_routines) callee caller =
              (if callee \<in> fst ` set all_routines \<and> caller \<in> fst ` set all_routines
               then Some (if \<exists>callees. map_of all_routines caller = Some callees \<and>
                                       callee \<in> set callees
                          then 1 else 0)
               else None))"
proof -
  have "(\<exists>callees. (caller, callees) \<in> set all_routines \<and> callee \<in> set callees)
      = (\<exists>callees. map_of all_routines caller = Some callees \<and> callee \<in> set callees)"
    for caller callee
    using assms by simp
  then have "at_get (assemble all_routines) callee caller =
      (if callee \<in> fst ` set all_routines \<and> caller \<in> fst ` set all_routines
       then Some (if \<exists>callees. map_of all_routines caller = Some callees \<and>
                               callee \<in> set callees
                  then 1 else 0)
       else None)" for callee caller
    by (simp only: at_get_assemble)
  then show ?thesis
    using assms
    by (simp add: square01_assemble assemble_shape sort_keys_sorted_list_of_set)
qed

theorem assemble_adjacency_matrix_witness:
  "distinct (map fst example_routines) \<and>
   assemble example_routines = example_matrix \<and>
   at_get (assemble example_routines) ''beta'' ''alpha'' = Some 1 \<and>
   at_get (assemble example_routines) ''alpha'' ''beta'' = Some 0 \<and>
   at_get (assemble example_routines) ''gamma'' ''alpha'' = None"
proof -
  have d: "distinct (map fst example_routines)" by (simp add: example_routines_def)
  note t = assemble_adjacency_matrix [OF d]
  have "assemble example_routines = example_matrix" by code_simp
  moreover have "at_get (assemble example_routines) ''beta'' ''alpha'' = Some 1"
    using t by (simp add: example_routines_def)
  moreover have "at_get (assemble example_routines) ''alpha'' ''beta'' = Some 0"
    using t by (simp add: example_routines_def)
  moreover have "at_get (assemble example_routines) ''gamma'' ''alpha'' = None"
    using t by (simp add: example_routines_def)
  ultimately show ?thesis using d by blast
qed

text \<open>
  Claim C5, as amended. Whatever is scanned, no routine is among its own raw callees (a call
  of the current routine is skipped), so every diagonal cell of the matrix is 0. A call of
  \<open>b\<close> is in the final list of \<open>a\<close> whenever some line scanned while \<open>a\<close> is the current
  routine holds \<open>b\<close> as a match of the call pattern and no later line declares \<open>a\<close> again
  (\<open>call_kept\<close>); and when \<open>b\<close> is in the final list of \<open>a\<close> and \<open>a\<close> in that of \<open>b\<close>,
  in particular when both calls are kept in this sense, the cells in row \<open>a\<close>, column \<open>b\<close>
  and in row \<open>b\<close>, column \<open>a\<close> are both 1.
\<close>

theorem no_self_loop_but_cycles:
  assumes "scan_files entries [] = Inr all_routines"
  shows "generate_fortran_matrix (Dir entries) = Inr (assemble all_routines) \<and>
         (\<forall>r callees. map_of all_routines r = Some callees \<longrightarrow> r \<notin> set callees) \<and>
         (\<forall>r. at_get (assemble all_routines) r r =
                (if r \<in> fst ` set all_routines then Some 0 else None)) \<and>
         (\<forall>a b ca cb.
            map_of all_routines a = Some ca \<and> b \<in> set ca \<and>
            map_of all_routines b = Some cb \<and> a \<in> set cb \<longrightarrow>
            at_get (assemble all_routines) a b = Some 1 \<and>
            at_get (assemble all_routines) b a = Some 1) \<and>
         (\<forall>a b. call_kept entries a b \<longrightarrow>
            (\<exists>callees. map_of all_routines a = Some callees \<and> b \<in> set callees)) \<and>
         (\<forall>a b. call_kept entries a b \<and> call_kept entries b a \<longrightarrow>
            at_get (assemble all_routines) a b = Some 1 \<and>
            at_get (assemble all_routines) b a = Some 1)"
proof -
  have e: "distinct (map fst ([] :: routines))" "no_self_calls []"
    by (simp_all add: no_self_calls_def)
  then have inv: "distinct (map fst all_routines) \<and> no_self_calls all_routines"
    using assms by (rule scan_files_inv)
  have noself: "r \<notin> set callees" if "(r, callees) \<in> set all_routines" for r callees
    using inv that by (auto simp: no_self_calls_def list_all_iff)
  have m: "map_of all_routines r = Some callees \<Longrightarrow> (r, callees) \<in> set all_routines"
    for r callees by (rule map_of_SomeD)
  have gen: "generate_fortran_matrix (Dir entries) = Inr (assemble all_routines)"
    by (simp add: generate_fortran_matrix_def assms)
  have diag: "at_get (assemble all_routines) r r =
      (if r \<in> fst ` set all_routines then Some 0 else None)" for r
    using noself by (auto simp: at_get_assemble)
  have cyc: "at_get (assemble all_routines) a b = Some 1 \<and>
      at_get (assemble all_routines) b a = Some 1"
    if "map_of all_routines a = Some ca" "b \<in> set ca"
       "map_of all_routines b = Some cb" "a \<in> set cb" for a b ca cb
  proof -
    have ma: "(a, ca) \<in> set all_routines" and mb: "(b, cb) \<in> set all_routines"
      using that m by blast+
    then have "a \<in> fst ` set all_routines" "b \<in> fst ` set all_routines" by force+
    with ma mb that(2,4) show ?thesis by (auto simp: at_get_assemble)
  qed
  have kept: "\<exists>callees. map_of all_routines a = Some callees \<and> b \<in> set callees"
    if "call_kept entries a b" for a b
    using scan_files_kept [OF assms e that] .
  have kept2: "at_get (assemble all_routines) a b = Some 1 \<and>
      at_get (assemble all_routines) b a = Some 1"
    if "call_kept entries a b" "call_kept entries b a" for a b
    using kept [OF that(1)] kept [OF that(2)] cyc by blast
  from gen diag cyc noself m kept kept2 show ?thesis by blast
qed

theorem no_self_loop_but_cycles_witness:
  "scan_files [(''m.f90'', Some cycle_source)] [] = Inr [(''a'', [''b'']), (''b'', [''a''])] \<and>
   call_kept [(''m.f90'', Some cycle_source)] ''a'' ''b'' \<and>
   call_kept [(''m.f90'', Some cycle_source)] ''b'' ''a'' \<and>
   generate_fortran_matrix (Dir [(''m.f90'', Some cycle_source)])
     = Inr \<lparr>index = [''a'', ''b''], columns = [''a'', ''b''], vals = [[0, 1], [1, 0]]\<rparr> \<and>
   at_get (assemble [(''a'', [''b'']), (''b'', [''a''])]) ''a'' ''a'' = Some 0 \<and>
   at_get (assemble [(''a'', [''b'']), (''b'', [''a''])]) ''a'' ''b'' = Some 1 \<and>
   at_get (assemble [(''a'', [''b'']), (''b'', [''a''])]) ''b'' ''a'' = Some 1"
proof -
  have s: "scan_files [(''m.f90'', Some cycle_source)] [] = Inr [(''a'', [''b'']), (''b'', [''a''])]"
    by code_simp
  have k1: "call_kept [(''m.f90'', Some cycle_source)] ''a'' ''b''" by code_simp
  have k2: "call_kept [(''m.f90'', Some cycle_source)] ''b'' ''a''" by code_simp
  note t = no_self_loop_but_cycles [OF s]
  have e: "assemble [(''a'', [''b'']), (''b'', [''a''])]
      = \<lparr>index = [''a'', ''b''], columns = [''a'', ''b''], vals = [[0, 1], [1, 0]]\<rparr>"
    by code_simp
  have g: "generate_fortran_matrix (Dir [(''m.f90'', Some cycle_source)])
      = Inr \<lparr>index = [''a'', ''b''], columns = [''a'', ''b''], vals = [[0, 1], [1, 0]]\<rparr>"
    using t e by simp
  have d: "at_get (assemble [(''a'', [''b'']), (''b'', [''a''])]) ''a'' ''a'' = Some 0"
    using t by simp
  have "at_get (assemble [(''a'', [''b'']), (''b'', [''a''])]) ''a'' ''b'' = Some 1 \<and>
      at_get (assemble [(''a'', [''b'']), (''b'', [''a''])]) ''b'' ''a'' = Some 1"
    using t k1 k2 by blast
  with s k1 k2 g d show ?thesis by blast
qed

text \<open>
  Claim C5 as stated fails for mutual calls in general. In \<open>interface_cycle_source\<close>
  routine \<open>a\<close> calls \<open>b\<close> and \<open>b\<close> calls \<open>a\<close>, but \<open>b\<close> repeats the header of \<open>a\<close> in an
  interface block: that line is a routine-start line, so it empties the list of \<open>a\<close>, and
  the \<open>end subroutine\<close> after it leaves no current routine for the call of \<open>a\<close>. Both
  lists end up empty and the matrix holds no 1.
\<close>

theorem mutual_calls_lost_counterexample:
  "logical_lines interface_cycle_source =
     [''subroutine a(x)'', ''  call b(x)'', ''end subroutine a'',
      ''subroutine b(x)'', ''  interface'', ''    subroutine a(x)'',
      ''    end subroutine a'', ''  end interface'', ''  call a(x)'',
      ''end subroutine b''] \<and>
   scan_files [(''m.f90'', Some interface_cycle_source)] [] = Inr [(''a'', []), (''b'', [])] \<and>
   generate_fortran_matrix (Dir [(''m.f90'', Some interface_cycle_source)])
     = Inr \<lparr>index = [''a'', ''b''], columns = [''a'', ''b''], vals = [[0, 0], [0, 0]]\<rparr>"
  by code_simp

text \<open>
  Claim C6, as amended. On a routine-start line the scanner stores the empty list under the
  routine's name whether or not the name has an entry already: after the line, the entry
  holds only the calls found on that line itself, whatever was recorded under an earlier
  declaration of the name is gone, the entries of the other routines are as before, and a
  name that was present keeps its position among the keys.
\<close>

theorem routine_start_resets_callees:
  assumes "routine_start line = Some name"
  shows "map_of (fst (scan_line line (all_routines, current_routine))) =
           (map_of all_routines)(lower name \<mapsto>
              filter (\<lambda>c. c \<noteq> lower name) (map lower (call_pattern_findall line))) \<and>
         snd (scan_line line (all_routines, current_routine)) = Some (lower name) \<and>
         map fst (fst (scan_line line (all_routines, current_routine))) =
           (if lower name \<in> fst ` set all_routines then map fst all_routines
            else map fst all_routines @ [lower name])"
  using scan_line_routine_start [OF assms] by simp

theorem routine_start_resets_callees_witness:
  "routine_start ''subroutine foo'' = Some ''foo'' \<and>
   map_of (fst (scan_line ''subroutine foo'' ([(''foo'', [''bar''])], None))) ''foo'' = Some [] \<and>
   map fst (fst (scan_line ''subroutine foo'' ([(''foo'', [''bar''])], None))) = [''foo'']"
proof -
  have r: "routine_start ''subroutine foo'' = Some ''foo''" by code_simp
  have l: "lower ''foo'' = ''foo''" by code_simp
  have c: "call_pattern_findall ''subroutine foo'' = []" by code_simp
  show ?thesis
    using routine_start_resets_callees [OF r, of "[(''foo'', [''bar''])]" None] r
    by (simp add: l c)
qed

text \<open>
  Claim C6 as stated fails: after the first declaration of \<open>foo\<close> its list holds \<open>bar\<close>;
  the second declaration empties it.
\<close>

theorem duplicate_declaration_counterexample:
  "scan_lines (take 3 redeclared_lines) [] = [(''foo'', [''bar''])] \<and>
   scan_lines redeclared_lines [] = [(''foo'', [])]"
  by code_simp

text \<open>
  Claim C8: for a directory that does not exist both tools should report it and give an
  empty result. The inventory extractor tests \<open>os.path.exists\<close> first, prints the message
  and returns the empty frame; the matrix generator has no such test, and its
  \<open>os.listdir\<close> raises \<open>FileNotFoundError\<close>.
\<close>

theorem missing_directory_raises:
  "generate_fortran_matrix Missing = Inl FileNotFoundError \<and>
   scan_fortran_directory ''nowhere'' Missing =
     ([''Error: Directory '' @ [CHR 0x27] @ ''nowhere'' @ [CHR 0x27] @ '' does not exist.''],
      Inr [])"
  by (simp add: generate_fortran_matrix_def scan_fortran_directory_def)

section \<open>Claims about file selection and the report composer\<close>

lemma scan_files_filter:
  "scan_files (filter (\<lambda>e. endswith (fst e) ''.f90'') entries) all = scan_files entries all"
proof (induction entries arbitrary: all)
  case Nil
  then show ?case by simp
next
  case (Cons e entries)
  obtain filename content where e: "e = (filename, content)" by (cases e)
  show ?case by (cases content) (simp_all add: e Cons)
qed

lemma inventory_files_filter:
  "inventory_files
     (filter (\<lambda>e. endswith (fst e) ''.f90'' \<or> endswith (fst e) ''.F90'' \<or>
                   endswith (fst e) ''.f95'') entries) acc
   = inventory_files entries acc"
proof (induction entries arbitrary: acc)
  case Nil
  then show ?case by simp
next
  case (Cons e entries)
  obtain filename content where e: "e = (filename, content)" by (cases e)
  show ?case by (cases content) (simp_all add: e Cons)
qed

text \<open>
  Claim C10. The matrix generator reads only the entries whose names end in \<open>.f90\<close>; the
  inventory extractor reads those ending in \<open>.f90\<close>, \<open>.F90\<close> or \<open>.f95\<close>. In
  \<open>other_extensions_dir\<close> the routines \<open>foo\<close> (declared in a \<open>.F90\<close> file) and \<open>bar\<close>
  (in a \<open>.f95\<close> file) are in the inventory, while the universe and the matrix are empty.
\<close>

theorem extension_filters_differ:
  "(\<forall>entries. generate_fortran_matrix (Dir entries) =
      generate_fortran_matrix (Dir (filter (\<lambda>e. endswith (fst e) ''.f90'') entries))) \<and>
   (\<forall>path entries. scan_fortran_directory path (Dir entries) =
      scan_fortran_directory path
        (Dir (filter (\<lambda>e. endswith (fst e) ''.f90'' \<or> endswith (fst e) ''.F90'' \<or>
                           endswith (fst e) ''.f95'') entries))) \<and>
   scan_fortran_directory ''src'' other_extensions_dir =
     ([], Inr [\<lparr>obj_name = ''foo'', module_nm = ''External'', rtype = ''subroutine''\<rparr>,
               \<lparr>obj_name = ''bar'', module_nm = ''External'', rtype = ''function''\<rparr>]) \<and>
   generate_fortran_matrix other_extensions_dir = Inr \<lparr>index = [], columns = [], vals = []\<rparr>"
proof -
  have a: "generate_fortran_matrix (Dir entries) =
      generate_fortran_matrix (Dir (filter (\<lambda>e. endswith (fst e) ''.f90'') entries))" for entries
    by (simp add: generate_fortran_matrix_def scan_files_filter)
  have b: "scan_fortran_directory path (Dir entries) =
      scan_fortran_directory path
        (Dir (filter (\<lambda>e. endswith (fst e) ''.f90'' \<or> endswith (fst e) ''.F90'' \<or>
                           endswith (fst e) ''.f95'') entries))" for path entries
    by (simp add: scan_fortran_directory_def inventory_files_filter)
  have c: "scan_fortran_directory ''src'' other_extensions_dir =
     ([], Inr [\<lparr>obj_name = ''foo'', module_nm = ''External'', rtype = ''subroutine''\<rparr>,
               \<lparr>obj_name = ''bar'', module_nm = ''External'', rtype = ''function''\<rparr>])"
    by code_simp
  have d: "generate_fortran_matrix other_extensions_dir = Inr \<lparr>index = [], columns = [], vals = []\<rparr>"
    by code_simp
  from a b c d show ?thesis by blast
qed




end
